theory Spec2Isabelle
  imports Main
begin

section \<open>Strings: the library calls of the router\<close>

text \<open>
  Go strings are byte sequences; they are modelled as \<^typ>\<open>string\<close>. The router uses
  three calls of package \<open>strings\<close>, always with a one-byte cut set, separator or prefix:
  \<open>strings.Trim(s, "/")\<close>, \<open>strings.Split(s, "/")\<close> and \<open>strings.HasPrefix(part, ":")\<close>.
\<close>

definition Trim :: "string \<Rightarrow> string \<Rightarrow> string" where
  \<comment> \<open>\<open>strings.Trim(s, cutset)\<close>: all leading and trailing bytes of the cut set removed.\<close>
  "Trim s cutset =
     rev (dropWhile (\<lambda>c. c \<in> set cutset) (rev (dropWhile (\<lambda>c. c \<in> set cutset) s)))"

fun Split :: "string \<Rightarrow> char \<Rightarrow> string list" where
  \<comment> \<open>\<open>strings.Split(s, sep)\<close> for a one-byte separator: one more piece than separators,
      so the empty string gives one empty piece.\<close>
  "Split [] sep = [[]]"
| "Split (c # cs) sep =
     (if c = sep then [] # Split cs sep
      else (case Split cs sep of [] \<Rightarrow> [[c]] | x # xs \<Rightarrow> (c # x) # xs))"

definition HasPrefix :: "string \<Rightarrow> string \<Rightarrow> bool" where
  \<comment> \<open>\<open>strings.HasPrefix(s, prefix)\<close>\<close>
  "HasPrefix s p = (take (length p) s = p)"

section \<open>The route matcher\<close>

text \<open>
  \<open>params\<close> is the Go \<open>map[string]string\<close> filled while a route is matched.
\<close>

type_synonym params = "string \<rightharpoonup> string"

text \<open>
  The inner loop of \<open>handleRequest\<close> (\<open>for i, part := range routeParts\<close>). Both lists
  have the same length where the loop is entered, so \<open>pathParts[i]\<close> is the head of the
  second list; \<open>None\<close> is \<open>match = false; break\<close>. The last equation is the index out
  of range, which the length test before the loop excludes.
\<close>

fun matchParts :: "string list \<Rightarrow> string list \<Rightarrow> params \<Rightarrow> params option" where
  "matchParts [] pathParts ps = Some ps"
| "matchParts (part # routeParts) (q # pathParts) ps =
     (if HasPrefix part '':'' then matchParts routeParts pathParts (ps(drop 1 part \<mapsto> q))
      else if part \<noteq> q then None
      else matchParts routeParts pathParts ps)"
| "matchParts (part # routeParts) [] ps = None"

definition matchRoute :: "string \<Rightarrow> string list \<Rightarrow> params option" where
  \<comment> \<open>The body of the loop over the routes, up to \<open>if match\<close>: \<open>None\<close> is \<open>continue\<close>
      or \<open>match = false\<close>.\<close>
  "matchRoute routePath pathParts =
     (let routeParts = Split (Trim routePath ''/'') (CHR ''/'') in
      if length routeParts \<noteq> length pathParts then None
      else matchParts routeParts pathParts Map.empty)"

definition segments :: "string \<Rightarrow> string list" where
  \<comment> \<open>What the dispatcher does to a pattern and to a request path alike.\<close>
  "segments s = Split (Trim s ''/'') (CHR ''/'')"

definition bindParam :: "params \<Rightarrow> string \<times> string \<Rightarrow> params" where
  \<comment> \<open>The assignment \<open>params[part[1:]] = pathParts[i]\<close>.\<close>
  "bindParam ps pq = ps(drop 1 (fst pq) \<mapsto> snd pq)"

section \<open>Numbers as text\<close>

datatype error = ErrSyntax | ErrRange | ErrEncode

definition maxInt :: int where
  \<comment> \<open>Go's \<open>int\<close> on a 64-bit platform.\<close>
  "maxInt = 9223372036854775807"

definition digitVal :: "char \<Rightarrow> nat option" where
  "digitVal c =
     (let n = (of_char c :: nat) in if 48 \<le> n \<and> n \<le> 57 then Some (n - 48) else None)"

definition maxUint64 :: nat where
  "maxUint64 = 18446744073709551615"

fun parseUint :: "string \<Rightarrow> nat \<Rightarrow> error + nat" where
  \<comment> \<open>The loop of \<open>strconv.ParseUint\<close> in base 10 with 64 bits: a byte that is no digit
      is a syntax error; a value that leaves 64 bits ends the loop with a range error,
      whatever follows.\<close>
  "parseUint [] n = Inr n"
| "parseUint (c # cs) n =
     (case digitVal c of
        None \<Rightarrow> Inl ErrSyntax
      | Some d \<Rightarrow>
          if n \<ge> maxUint64 div 10 + 1 then Inl ErrRange
          else if n * 10 + d > maxUint64 then Inl ErrRange
          else parseUint cs (n * 10 + d))"

definition Atoi :: "string \<Rightarrow> int \<times> error option" where
  \<comment> \<open>\<open>strconv.Atoi\<close>: an optional sign and at least one decimal digit. A syntax error
      returns 0; a value outside \<open>int\<close> returns the nearest bound and a range error.\<close>
  "Atoi s =
     (let neg = (s \<noteq> [] \<and> hd s = CHR ''-'');
          ds = (if s \<noteq> [] \<and> (hd s = CHR ''-'' \<or> hd s = CHR ''+'') then tl s else s)
      in if ds = [] then (0, Some ErrSyntax)
         else (case parseUint ds 0 of
                 Inl ErrRange \<Rightarrow> (if neg then - maxInt - 1 else maxInt, Some ErrRange)
               | Inl e \<Rightarrow> (0, Some ErrSyntax)
               | Inr un \<Rightarrow>
                   if \<not> neg \<and> int un > maxInt then (maxInt, Some ErrRange)
                   else if neg \<and> int un > maxInt + 1 then (- maxInt - 1, Some ErrRange)
                   else (if neg then - int un else int un, None)))"

definition isInteger :: "string \<Rightarrow> bool" where
  \<comment> \<open>The text of an integer in decimal: an optional sign, then digits, at least one.\<close>
  "isInteger s =
     (let ds = (case s of [] \<Rightarrow> [] | c # cs \<Rightarrow> if c = CHR ''+'' \<or> c = CHR ''-'' then cs else s)
      in ds \<noteq> [] \<and> list_all (\<lambda>c. c \<in> set ''0123456789'') ds)"

definition hexDigit :: "nat \<Rightarrow> char" where
  "hexDigit d = (if d < 10 then char_of (48 + d) else char_of (87 + d))"

fun hex :: "nat \<Rightarrow> string" where
  \<comment> \<open>The verb \<open>%x\<close> of package \<open>fmt\<close> on a length.\<close>
  "hex n = (if n < 16 then [hexDigit n] else hex (n div 16) @ [hexDigit (n mod 16)])"

declare hex.simps [simp del]

definition CRLF :: string where
  "CRLF = [char_of (13::nat), char_of (10::nat)]"

section \<open>The data model\<close>

text \<open>
  The fields of \<open>http.Request\<close> that the repository reads. Headers and query values
  are lists, as \<open>http.Header\<close> and \<open>url.Values\<close> are.
\<close>

record HttpRequest =
  Method :: string
  URL_Path :: string
  URL_Query :: "string \<rightharpoonup> string list"
  reqHeader :: "string \<rightharpoonup> string list"
  reqBody :: string

text \<open>
  The Go values that the handlers hand to \<open>Json\<close>: strings, integers, slices, and maps
  and structs as lists of key and value. \<open>GUnsupported\<close> stands for a value that
  \<open>encoding/json\<close> refuses (a channel, a function).
\<close>

datatype gval =
    GString string
  | GInt int
  | GSlice "gval list"
  | GObject "(string \<times> gval) list"
  | GUnsupported

fun encodable :: "gval \<Rightarrow> bool" where
  "encodable (GString s) = True"
| "encodable (GInt i) = True"
| "encodable (GSlice vs) = list_all encodable vs"
| "encodable (GObject kvs) = list_all (\<lambda>kv. encodable (snd kv)) kvs"
| "encodable GUnsupported = False"

text \<open>
  \<open>http.ResponseWriter\<close> is an interface of the standard library. The model holds
  its header map, the codes of the \<open>WriteHeader\<close> calls in order, and the writes in
  order. A write is either raw bytes or the JSON text of a value followed by a newline,
  as \<open>json.Encoder.Encode\<close> writes it. The repository changes the header map by
  \<open>Header().Set\<close> only, which puts one value under the canonical form of the key, so
  the map holds one value for a key.

  \<open>textproto.CanonicalMIMEHeaderKey\<close>: a key of token bytes only gets an upper-case
  letter at its start and after every hyphen and lower-case letters elsewhere; any other
  key is left as it is.
\<close>

definition isLower :: "char \<Rightarrow> bool" where
  "isLower c = (97 \<le> (of_char c :: nat) \<and> (of_char c :: nat) \<le> 122)"

definition isUpper :: "char \<Rightarrow> bool" where
  "isUpper c = (65 \<le> (of_char c :: nat) \<and> (of_char c :: nat) \<le> 90)"

definition validHeaderFieldByte :: "char \<Rightarrow> bool" where
  "validHeaderFieldByte c =
     (isLower c \<or> isUpper c \<or> digitVal c \<noteq> None \<or>
      c \<in> set (''!#$%&*+-.^_|~'' @ [CHR 0x27, CHR 0x60]))"

fun canonicalize :: "bool \<Rightarrow> string \<Rightarrow> string" where
  "canonicalize upper [] = []"
| "canonicalize upper (c # cs) =
     (let c' = (if upper \<and> isLower c then char_of ((of_char c :: nat) - 32)
                else if \<not> upper \<and> isUpper c then char_of ((of_char c :: nat) + 32)
                else c)
      in c' # canonicalize (c' = CHR ''-'') cs)"

definition CanonicalMIMEHeaderKey :: "string \<Rightarrow> string" where
  "CanonicalMIMEHeaderKey s = (if list_all validHeaderFieldByte s then canonicalize True s else s)"

datatype wwrite = WBytes string | WJson gval

record ResponseWriter =
  wHeader :: "string \<rightharpoonup> string"
  wCodes :: "int list"
  wBody :: "wwrite list"

definition newWriter :: ResponseWriter where
  "newWriter = \<lparr>wHeader = Map.empty, wCodes = [], wBody = []\<rparr>"

definition HeaderSet :: "string \<Rightarrow> string \<Rightarrow> ResponseWriter \<Rightarrow> ResponseWriter" where
  \<comment> \<open>\<open>w.Header().Set(k, v)\<close>\<close>
  "HeaderSet k v w = w\<lparr>wHeader := (wHeader w)(CanonicalMIMEHeaderKey k \<mapsto> v)\<rparr>"

definition WriteHeader :: "int \<Rightarrow> ResponseWriter \<Rightarrow> ResponseWriter" where
  "WriteHeader code w = w\<lparr>wCodes := wCodes w @ [code]\<rparr>"

definition WriterWrite :: "string \<Rightarrow> ResponseWriter \<Rightarrow> ResponseWriter" where
  "WriterWrite bs w = w\<lparr>wBody := wBody w @ [WBytes bs]\<rparr>"

definition Encode :: "gval \<Rightarrow> ResponseWriter \<Rightarrow> ResponseWriter \<times> error option" where
  \<comment> \<open>\<open>json.NewEncoder(w).Encode(v)\<close>: one write of the whole text, or an error and no
      write.\<close>
  "Encode v w =
     (if encodable v then (w\<lparr>wBody := wBody w @ [WJson v]\<rparr>, None) else (w, Some ErrEncode))"

definition NotFound :: "ResponseWriter \<Rightarrow> ResponseWriter" where
  \<comment> \<open>\<open>http.NotFound(w, r)\<close>\<close>
  "NotFound w =
     WriterWrite ''404 page not found\<newline>''
       (WriteHeader 404
          (HeaderSet ''X-Content-Type-Options'' ''nosniff''
             (HeaderSet ''Content-Type'' ''text/plain; charset=utf-8'' w)))"

record Request =
  httpRequest :: HttpRequest
  params :: params

record Response =
  writer :: ResponseWriter
  headerWritten :: bool
  status :: int
  headers :: "string \<rightharpoonup> string"

text \<open>
  A handler is a Go closure \<open>func(*Request, *Response)\<close>. It changes the response it is
  given and the variables it captured; \<open>'e\<close> is the type of what it captured.
\<close>

type_synonym 'e RouteHandler = "Request \<Rightarrow> Response \<Rightarrow> 'e \<Rightarrow> Response \<times> 'e"

record 'e Route =
  path :: string
  handler :: "'e RouteHandler"

record 'e Server =
  routes :: "string \<rightharpoonup> 'e Route list"
  maxWorkers :: nat

definition NewServer :: "nat \<Rightarrow> 'e Server" where
  \<comment> \<open>The argument is \<open>runtime.NumCPU()\<close>; \<open>maxWorkers\<close> is the capacity of the channel
      \<open>workerPool\<close>.\<close>
  "NewServer numCPU = \<lparr>routes = Map.empty, maxWorkers = numCPU * 100\<rparr>"

section \<open>Request\<close>


definition Query :: "Request \<Rightarrow> (string \<rightharpoonup> string list)" where
  "Query r = URL_Query (httpRequest r)"

definition PathParam :: "Request \<Rightarrow> string \<Rightarrow> string" where
  \<comment> \<open>A Go map gives the empty string for a key it does not hold.\<close>
  "PathParam r param = (case params r param of None \<Rightarrow> [] | Some v \<Rightarrow> v)"

definition Body :: "(string \<Rightarrow> 'a option) \<Rightarrow> Request \<Rightarrow> 'a option" where
  \<comment> \<open>The first argument is the JSON decoder of the standard library for the type
      asked for; \<open>None\<close> is the nil pointer.\<close>
  "Body decode r = decode (reqBody (httpRequest r))"

section \<open>Response\<close>

definition NewResponse :: "ResponseWriter \<Rightarrow> Response" where
  "NewResponse w = \<lparr>writer = w, headerWritten = False, status = 200, headers = Map.empty\<rparr>"

definition Header :: "string \<Rightarrow> string \<Rightarrow> Response \<Rightarrow> Response" where
  "Header header value r =
     (if \<not> headerWritten r then r\<lparr>headers := (headers r)(header \<mapsto> value)\<rparr> else r)"

definition Status :: "string \<Rightarrow> Response \<Rightarrow> Response" where
  "Status HTTPStatus r = r\<lparr>status := fst (Atoi HTTPStatus)\<rparr>"

text \<open>
  \<open>for k, v := range r.headers\<close> walks the map in an order that Go leaves open. The
  model takes the keys and values in some order, each key once, and knows no more of
  it: what is proved of the loop holds for every order. A Go map is finite; for an
  infinite map of the model the order is without meaning.
\<close>

definition rangeOrder :: "(string \<rightharpoonup> string) \<Rightarrow> (string \<times> string) list" where
  "rangeOrder m = (SOME kvs. map_of kvs = m \<and> distinct (map fst kvs))"

definition setHeaders :: "(string \<rightharpoonup> string) \<Rightarrow> ResponseWriter \<Rightarrow> ResponseWriter" where
  \<comment> \<open>The loop of \<open>writeHeaders\<close>.\<close>
  "setHeaders m w = fold (\<lambda>kv. HeaderSet (fst kv) (snd kv)) (rangeOrder m) w"

definition writeHeaders :: "Response \<Rightarrow> Response" where
  "writeHeaders r =
     (if \<not> headerWritten r then
        r\<lparr>writer := WriteHeader (status r) (setHeaders (headers r) (writer r)),
          headerWritten := True\<rparr>
      else r)"

definition End :: "Response \<Rightarrow> Response" where
  "End r =
     (let r1 = writeHeaders r in
      if headers r1 ''Transfer-Encoding'' = Some ''chunked''
      then r1\<lparr>writer := WriterWrite (''0'' @ CRLF @ CRLF) (writer r1)\<rparr>
      else r1)"

definition Json :: "gval \<Rightarrow> Response \<Rightarrow> Response \<times> error option" where
  "Json resp r =
     (let r1 = writeHeaders (Header ''Content-Type'' ''application/json'' r);
          (w, err) = Encode resp (writer r1)
      in (r1\<lparr>writer := w\<rparr>, err))"

definition Write :: "string \<Rightarrow> Response \<Rightarrow> Response" where
  "Write data r =
     (let r1 = (if \<not> headerWritten r
                then writeHeaders (Header ''Transfer-Encoding'' ''chunked'' r) else r)
      in if length data = 0 then r1
         else r1\<lparr>writer := WriterWrite CRLF
                              (WriterWrite data
                                 (WriterWrite (hex (length data) @ CRLF) (writer r1)))\<rparr>)"

section \<open>Server\<close>

text \<open>
  \<open>handleRequest\<close> without its first two statements, which take and give back a slot of
  \<open>workerPool\<close> (they are the subject of the section on the admission gate). The locks
  are not modelled: this is one request, served alone. \<open>routeLoop\<close> is the loop over the
  routes of the method and what follows it.
\<close>

fun routeLoop ::
  "'e Route list \<Rightarrow> string list \<Rightarrow> ResponseWriter \<Rightarrow> HttpRequest \<Rightarrow> 'e \<Rightarrow> ResponseWriter \<times> 'e"
where
  "routeLoop [] pathParts w r env = (NotFound w, env)"
| "routeLoop (route # rest) pathParts w r env =
     (case matchRoute (path route) pathParts of
        None \<Rightarrow> routeLoop rest pathParts w r env
      | Some ps \<Rightarrow>
          (let req = \<lparr>httpRequest = r, params = ps\<rparr>;
               res = NewResponse w;
               (res', env') = handler route req res env
           in (writer res', env')))"

definition handleRequest ::
  "'e Server \<Rightarrow> ResponseWriter \<Rightarrow> HttpRequest \<Rightarrow> 'e \<Rightarrow> ResponseWriter \<times> 'e"
where
  "handleRequest s w r env =
     (case routes s (Method r) of
        None \<Rightarrow> (NotFound w, env)
      | Some rs \<Rightarrow>
          (let path = Trim (URL_Path r) ''/'';
               pathParts = Split path (CHR ''/'')
           in routeLoop rs pathParts w r env))"

definition routesOf :: "'e Server \<Rightarrow> string \<Rightarrow> 'e Route list" where
  \<comment> \<open>\<open>s.routes[method]\<close> as \<open>append\<close> reads it: nil for a method without routes.\<close>
  "routesOf s method = (case routes s method of None \<Rightarrow> [] | Some rs \<Rightarrow> rs)"

definition addRoute :: "string \<Rightarrow> string \<Rightarrow> 'e RouteHandler \<Rightarrow> 'e Server \<Rightarrow> 'e Server" where
  "addRoute method p h s =
     s\<lparr>routes := (routes s)(method \<mapsto> routesOf s method @ [\<lparr>path = p, handler = h\<rparr>])\<rparr>"

definition Get :: "string \<Rightarrow> 'e RouteHandler \<Rightarrow> 'e Server \<Rightarrow> 'e Server" where
  "Get route h s = addRoute ''GET'' route h s"

definition Post :: "string \<Rightarrow> 'e RouteHandler \<Rightarrow> 'e Server \<Rightarrow> 'e Server" where
  "Post route h s = addRoute ''POST'' route h s"

definition Put :: "string \<Rightarrow> 'e RouteHandler \<Rightarrow> 'e Server \<Rightarrow> 'e Server" where
  "Put route h s = addRoute ''PUT'' route h s"

definition Delete :: "string \<Rightarrow> 'e RouteHandler \<Rightarrow> 'e Server \<Rightarrow> 'e Server" where
  "Delete route h s = addRoute ''DELETE'' route h s"

definition Any :: "string \<Rightarrow> 'e RouteHandler \<Rightarrow> 'e Server \<Rightarrow> 'e Server" where
  "Any route h s = Delete route h (Put route h (Post route h (Get route h s)))"

text \<open>A registration is one call of \<open>addRoute\<close>: method, pattern and handler.\<close>

type_synonym 'e registration = "string \<times> string \<times> 'e RouteHandler"

definition register :: "'e Server \<Rightarrow> 'e registration \<Rightarrow> 'e Server" where
  "register s reg = addRoute (fst reg) (fst (snd reg)) (snd (snd reg)) s"

definition registered :: "string \<Rightarrow> 'e registration list \<Rightarrow> 'e Route list" where
  \<comment> \<open>The registrations of one method, in the order they were made.\<close>
  "registered method regs =
     map (\<lambda>reg. \<lparr>path = fst (snd reg), handler = snd (snd reg)\<rparr>)
       (filter (\<lambda>reg. fst reg = method) regs)"

definition invoke ::
  "'e Route \<Rightarrow> params \<Rightarrow> ResponseWriter \<Rightarrow> HttpRequest \<Rightarrow> 'e \<Rightarrow> ResponseWriter \<times> 'e"
where
  \<comment> \<open>The call \<open>route.handler(req, res)\<close> with the request and response that
      \<open>handleRequest\<close> builds.\<close>
  "invoke route ps w r env =
     (let (res', env') = handler route \<lparr>httpRequest = r, params = ps\<rparr> (NewResponse w) env
      in (writer res', env'))"

section \<open>The demo application\<close>

record User =
  ID :: int
  Name :: string
  Phone :: string
  Age :: int

record UserRepository =
  users :: "User list"

definition NewUserRepository :: UserRepository where
  "NewUserRepository =
     \<lparr>users =
        [\<lparr>ID = 1, Name = ''Pavan Illa'', Phone = ''9381122977'', Age = 24\<rparr>,
         \<lparr>ID = 2, Name = ''John Doe'', Phone = ''9381122988'', Age = 28\<rparr>,
         \<lparr>ID = 3, Name = ''Peter Griffin'', Phone = ''8978987899'', Age = 44\<rparr>]\<rparr>"

definition GetAll :: "UserRepository \<Rightarrow> User list" where
  "GetAll ur = users ur"

definition GetByID :: "UserRepository \<Rightarrow> int \<Rightarrow> User option" where
  \<comment> \<open>\<open>None\<close> is the result \<open>(User{}, false)\<close>.\<close>
  "GetByID ur i = find (\<lambda>user. ID user = i) (users ur)"

definition Add :: "User \<Rightarrow> UserRepository \<Rightarrow> User \<times> UserRepository" where
  "Add user ur =
     (let user' = user\<lparr>ID := int (length (users ur)) + 1\<rparr>
      in (user', ur\<lparr>users := users ur @ [user']\<rparr>))"

definition addAll :: "UserRepository \<Rightarrow> User list \<Rightarrow> UserRepository" where
  \<comment> \<open>One call of \<open>Add\<close> after the other.\<close>
  "addAll ur us = foldl (\<lambda>ur' user. snd (Add user ur')) ur us"

definition maxID :: "UserRepository \<Rightarrow> int" where
  "maxID ur = Max (set (map ID (users ur)))"

definition userValue :: "User \<Rightarrow> gval" where
  \<comment> \<open>A \<open>User\<close> as \<open>encoding/json\<close> sees it, under the names of its field tags.\<close>
  "userValue u =
     GObject [(''id'', GInt (ID u)), (''name'', GString (Name u)),
              (''phone'', GString (Phone u)), (''age'', GInt (Age u))]"

definition errorValue :: "string \<Rightarrow> gval" where
  \<comment> \<open>\<open>map[string]string{"error": msg}\<close>\<close>
  "errorValue msg = GObject [(''error'', GString msg)]"

definition getAllUsers :: "UserRepository RouteHandler" where
  "getAllUsers req res userRepo =
     (let us = GetAll userRepo
      in (fst (Json (GSlice (map userValue us)) (Status ''200'' res)), userRepo))"

definition getUser :: "UserRepository RouteHandler" where
  "getUser req res userRepo =
     (let userIdStr = PathParam req ''userId'';
          (userId, err) = Atoi userIdStr
      in if err \<noteq> None
         then (fst (Json (errorValue ''Invalid UserId'') (Status ''400'' res)), userRepo)
         else (case GetByID userRepo userId of
                 None \<Rightarrow> (fst (Json (errorValue ''User not found'') (Status ''404'' res)), userRepo)
               | Some user \<Rightarrow> (fst (Json (userValue user) (Status ''200'' res)), userRepo)))"

definition addStudent :: "(string \<Rightarrow> User option) \<Rightarrow> UserRepository RouteHandler" where
  \<comment> \<open>The first argument is the JSON decoder of the standard library for \<open>User\<close>.\<close>
  "addStudent decodeUser req res userRepo =
     (case Body decodeUser req of
        None \<Rightarrow> (fst (Json (errorValue ''Invalid request body'') (Status ''400'' res)), userRepo)
      | Some user \<Rightarrow>
          if Name user = [] then
            (fst (Json (errorValue ''Name is required'') (Status ''400'' res)), userRepo)
          else if Phone user = [] then
            (fst (Json (errorValue ''Phone is required'') (Status ''400'' res)), userRepo)
          else if Age user \<le> 0 then
            (fst (Json (errorValue ''Invalid age'') (Status ''400'' res)), userRepo)
          else
            (let (newUser, userRepo') = Add user userRepo
             in (fst (Json (GObject [(''message'', GString ''Student added successfully''),
                                     (''user'', userValue newUser)])
                        (Status ''201'' res)),
                 userRepo')))"

definition app :: "nat \<Rightarrow> (string \<Rightarrow> User option) \<Rightarrow> UserRepository Server" where
  \<comment> \<open>The server as \<open>main\<close> has set it up when it starts to listen.\<close>
  "app numCPU decodeUser =
     Post ''/add-student'' (addStudent decodeUser)
       (Get ''/get-user/:userId'' getUser
          (Get ''/get-all-users'' getAllUsers (NewServer numCPU)))"

definition tejaBody :: string where
  \<comment> \<open>The request body of the scenario.\<close>
  \<open>tejaBody = ''{"name":"Teja","phone":"123","age":30}''\<close>

definition decodeTeja :: "string \<Rightarrow> User option" where
  \<comment> \<open>A decoder for the example: it reads the body of the scenario as
      \<open>encoding/json\<close> does, and nothing else.\<close>
  "decodeTeja b =
     (if b = tejaBody then Some \<lparr>ID = 0, Name = ''Teja'', Phone = ''123'', Age = 30\<rparr> else None)"

section \<open>The admission gate\<close>

text \<open>
  \<open>handleRequest\<close> starts with a send on the buffered channel \<open>workerPool\<close> and defers
  a receive from it; every request is served by a goroutine of its own. The model is the
  interleaving of these goroutines. A goroutine is before the send, between the send and
  the end of the function body (where the routes are searched and the handler runs), at
  the deferred receive, or done. A buffered channel holds at most its capacity: a send
  on a full channel and a receive on an empty one do not happen. Go runs a deferred call
  when the function returns and when it panics.
\<close>

datatype place = AtSend | InHandler | AtRelease | Finished

datatype exit = ReturnNoMethod | ReturnHandled | ReturnNotFound | Panic

datatype event = Arrive | Acquire nat | Leave nat exit | Release nat

record pool =
  capacity :: nat
  queued :: nat
  goroutines :: "place list"

definition startPool :: "'e Server \<Rightarrow> pool" where
  \<comment> \<open>\<open>make(chan struct{}, maxWorkers)\<close>, and no request yet.\<close>
  "startPool s = \<lparr>capacity = maxWorkers s, queued = 0, goroutines = []\<rparr>"

fun step :: "event \<Rightarrow> pool \<Rightarrow> pool option" where
  "step Arrive p = Some (p\<lparr>goroutines := goroutines p @ [AtSend]\<rparr>)"
| "step (Acquire g) p =
     (if g < length (goroutines p) \<and> goroutines p ! g = AtSend \<and> queued p < capacity p
      then Some (p\<lparr>queued := queued p + 1, goroutines := (goroutines p)[g := InHandler]\<rparr>)
      else None)"
| "step (Leave g e) p =
     (if g < length (goroutines p) \<and> goroutines p ! g = InHandler
      then Some (p\<lparr>goroutines := (goroutines p)[g := AtRelease]\<rparr>)
      else None)"
| "step (Release g) p =
     (if g < length (goroutines p) \<and> goroutines p ! g = AtRelease \<and> 0 < queued p
      then Some (p\<lparr>queued := queued p - 1, goroutines := (goroutines p)[g := Finished]\<rparr>)
      else None)"

fun run :: "event list \<Rightarrow> pool \<Rightarrow> pool option" where
  \<comment> \<open>\<open>None\<close>: the list asks for a step that cannot happen.\<close>
  "run [] p = Some p"
| "run (e # es) p = (case step e p of None \<Rightarrow> None | Some p' \<Rightarrow> run es p')"

definition executing :: "pool \<Rightarrow> nat" where
  "executing p = length (filter (\<lambda>pl. pl = InHandler) (goroutines p))"

definition holding :: "pool \<Rightarrow> nat" where
  \<comment> \<open>The goroutines that have sent and not yet received.\<close>
  "holding p = length (filter (\<lambda>pl. pl = InHandler \<or> pl = AtRelease) (goroutines p))"

definition gateInv :: "pool \<Rightarrow> bool" where
  \<comment> \<open>What every step keeps: each goroutine between its send and its receive has one
      element in the channel, and the channel is within its capacity.\<close>
  "gateInv p = (holding p = queued p \<and> queued p \<le> capacity p)"

section \<open>Sequences of calls on a response\<close>

datatype call =
    CallHeader string string
  | CallStatus string
  | CallJson gval
  | CallWrite string
  | CallEnd

fun perform :: "Response \<Rightarrow> call \<Rightarrow> Response" where
  "perform r (CallHeader k v) = Header k v r"
| "perform r (CallStatus s) = Status s r"
| "perform r (CallJson v) = fst (Json v r)"
| "perform r (CallWrite d) = Write d r"
| "perform r CallEnd = End r"

definition performAll :: "Response \<Rightarrow> call list \<Rightarrow> Response" where
  "performAll r cs = foldl perform r cs"

section \<open>Properties of the matcher\<close>

lemma Split_not_Nil: "Split s sep \<noteq> []"
  by (induction s) (auto split: list.splits)

lemma matchParts_Some_iff:
  "length rp = length pp \<Longrightarrow>
     (matchParts rp pp ps \<noteq> None) =
     (\<forall>(p, q) \<in> set (zip rp pp). \<not> HasPrefix p '':'' \<longrightarrow> p = q)"
  by (induction rp pp arbitrary: ps rule: list_induct2) auto

lemma matchParts_result:
  "matchParts rp pp ps = Some m \<Longrightarrow>
     m = foldl bindParam ps (filter (\<lambda>pq. HasPrefix (fst pq) '':'') (zip rp pp))"
  by (induction rp pp ps rule: matchParts.induct) (auto simp: bindParam_def split: if_splits)

lemma zip_all_nth:
  "length xs = length ys \<Longrightarrow>
     (\<forall>(p, q) \<in> set (zip xs ys). P p q) = (\<forall>i < length xs. P (xs ! i) (ys ! i))"
  by (auto simp: set_zip)


lemma matchRoute_Some_iff:
  assumes "length (segments P) = length pp"
  shows "(matchRoute P pp \<noteq> None) =
         (\<forall>i < length pp. \<not> HasPrefix (segments P ! i) '':'' \<longrightarrow> segments P ! i = pp ! i)"
proof -
  have "(matchRoute P pp \<noteq> None) = (matchParts (segments P) pp Map.empty \<noteq> None)"
    using assms by (simp add: matchRoute_def segments_def)
  also have "\<dots> = (\<forall>(p, q) \<in> set (zip (segments P) pp). \<not> HasPrefix p '':'' \<longrightarrow> p = q)"
    using assms by (rule matchParts_Some_iff)
  also have "\<dots> = (\<forall>i < length (segments P).
                      \<not> HasPrefix (segments P ! i) '':'' \<longrightarrow> segments P ! i = pp ! i)"
    using assms by (rule zip_all_nth)
  finally show ?thesis using assms by simp
qed

lemma matchRoute_result:
  assumes "matchRoute P pp = Some ps"
  shows "ps = foldl bindParam Map.empty
                (filter (\<lambda>pq. HasPrefix (fst pq) '':'') (zip (segments P) pp))"
proof -
  from assms have "matchParts (segments P) pp Map.empty = Some ps"
    by (simp add: matchRoute_def segments_def Let_def split: if_splits)
  then show ?thesis by (rule matchParts_result)
qed

text \<open>
  Claim C1. When the pattern \<open>P\<close> and the request path \<open>Q\<close>, both trimmed of slashes
  and split on the slash, have the same number of segments, the match succeeds exactly
  when every segment of \<open>P\<close> that does not start with a colon is equal to the segment of
  \<open>Q\<close> at the same position. Segments of \<open>P\<close> that start with a colon put no condition on
  \<open>Q\<close>: the parameters of a successful match are the assignments of every such segment's
  name to the segment of \<open>Q\<close> at its position, made from left to right.
\<close>

theorem C1_match_iff_literals_equal:
  assumes "length (segments P) = length (segments Q)"
  shows "((matchRoute P (segments Q) \<noteq> None) =
            (\<forall>i < length (segments Q).
               \<not> HasPrefix (segments P ! i) '':'' \<longrightarrow> segments P ! i = segments Q ! i)) \<and>
         (\<forall>ps. matchRoute P (segments Q) = Some ps \<longrightarrow>
            ps = foldl bindParam Map.empty
                   (filter (\<lambda>pq. HasPrefix (fst pq) '':'') (zip (segments P) (segments Q))))"
  using matchRoute_Some_iff [OF assms] matchRoute_result by blast

lemma segments_get_user: "segments ''/get-user/:userId'' = [''get-user'', '':userId'']"
  by (simp add: segments_def Trim_def)

lemma segments_get_user_abc: "segments ''/get-user/abc'' = [''get-user'', ''abc'']"
  by (simp add: segments_def Trim_def)

theorem C1_witness:
  "length (segments ''/get-user/:userId'') = length (segments ''/get-user/abc'') \<and>
   matchRoute ''/get-user/:userId'' (segments ''/get-user/abc'') = Some [''userId'' \<mapsto> ''abc'']"
proof -
  have len: "length (segments ''/get-user/:userId'') = length (segments ''/get-user/abc'')"
    by (simp add: segments_get_user segments_get_user_abc)
  have lits: "\<forall>i < length (segments ''/get-user/abc'').
                \<not> HasPrefix (segments ''/get-user/:userId'' ! i) '':'' \<longrightarrow>
                segments ''/get-user/:userId'' ! i = segments ''/get-user/abc'' ! i"
    by (simp add: segments_get_user segments_get_user_abc HasPrefix_def less_Suc_eq)
  from C1_match_iff_literals_equal [OF len] lits
  obtain ps where ps: "matchRoute ''/get-user/:userId'' (segments ''/get-user/abc'') = Some ps"
    by blast
  with C1_match_iff_literals_equal [OF len]
  have "ps = foldl bindParam Map.empty
               (filter (\<lambda>pq. HasPrefix (fst pq) '':'')
                  (zip (segments ''/get-user/:userId'') (segments ''/get-user/abc'')))"
    by blast
  then have "ps = [''userId'' \<mapsto> ''abc'']"
    by (simp add: segments_get_user segments_get_user_abc HasPrefix_def bindParam_def)
  with ps len show ?thesis by simp
qed

lemma HasPrefix_colon_inj:
  "HasPrefix p '':'' \<Longrightarrow> HasPrefix q '':'' \<Longrightarrow> drop 1 p = drop 1 q \<Longrightarrow> p = q"
  by (cases p; cases q) (auto simp: HasPrefix_def)

lemma matchParts_unbound:
  "matchParts rp pp ps = Some m \<Longrightarrow>
     \<forall>p \<in> set rp. HasPrefix p '':'' \<longrightarrow> drop 1 p \<noteq> n \<Longrightarrow> m n = ps n"
  by (induction rp pp ps rule: matchParts.induct) (auto split: if_splits)

lemma matchParts_last_wins:
  "matchParts rp pp ps = Some m \<Longrightarrow> i < length rp \<Longrightarrow> HasPrefix (rp ! i) '':'' \<Longrightarrow>
     \<forall>j. i < j \<and> j < length rp \<longrightarrow> rp ! j \<noteq> rp ! i \<Longrightarrow>
     m (drop 1 (rp ! i)) = Some (pp ! i)"
proof (induction rp pp ps arbitrary: i rule: matchParts.induct)
  case (1 pathParts ps)
  then show ?case by simp
next
  case (2 part routeParts q pathParts ps)
  show ?case
  proof (cases i)
    case 0
    have later: "\<forall>p \<in> set routeParts. HasPrefix p '':'' \<longrightarrow> drop 1 p \<noteq> drop 1 part"
    proof (intro ballI impI notI)
      fix p assume p: "p \<in> set routeParts" "HasPrefix p '':''" "drop 1 p = drop 1 part"
      then obtain j where j: "j < length routeParts" "routeParts ! j = p"
        by (auto simp: in_set_conv_nth)
      from p "2.prems"(3) 0 have "p = part" by (auto intro: HasPrefix_colon_inj)
      moreover from "2.prems"(4) 0 j have "(part # routeParts) ! Suc j \<noteq> part" by auto
      ultimately show False using j by simp
    qed
    from "2.prems"(1,3) 0
    have "matchParts routeParts pathParts (ps(drop 1 part \<mapsto> q)) = Some m" by simp
    from matchParts_unbound [OF this later] 0 show ?thesis by simp
  next
    case (Suc k)
    have rest: "\<forall>j. k < j \<and> j < length routeParts \<longrightarrow> routeParts ! j \<noteq> routeParts ! k"
    proof (intro allI impI)
      fix j assume "k < j \<and> j < length routeParts"
      with "2.prems"(4) [rule_format, of "Suc j"] Suc show "routeParts ! j \<noteq> routeParts ! k"
        by simp
    qed
    show ?thesis
    proof (cases "HasPrefix part '':''")
      case True
      with "2.prems"(1) have m: "matchParts routeParts pathParts (ps(drop 1 part \<mapsto> q)) = Some m"
        by simp
      from "2.IH"(1) [OF True m, of k] "2.prems"(2,3) Suc rest show ?thesis by simp
    next
      case False
      with "2.prems"(1) have eq: "part = q" and m: "matchParts routeParts pathParts ps = Some m"
        by (auto split: if_splits)
      from False eq have ne: "\<not> part \<noteq> q" by simp
      from "2.IH"(2) [OF False ne m, of k] "2.prems"(2,3) Suc rest show ?thesis by simp
    qed
  qed
next
  case (3 part routeParts ps)
  then show ?case by simp
qed


lemma matchRoute_last_wins:
  assumes "matchRoute P pp = Some ps" and "i < length (segments P)"
      and "HasPrefix (segments P ! i) '':''"
      and "\<forall>j. i < j \<and> j < length (segments P) \<longrightarrow> segments P ! j \<noteq> segments P ! i"
  shows "ps (drop 1 (segments P ! i)) = Some (pp ! i)"
proof -
  from assms(1) have "matchParts (segments P) pp Map.empty = Some ps"
    by (simp add: matchRoute_def segments_def Let_def split: if_splits)
  from matchParts_last_wins [OF this assms(2,3,4)] show ?thesis .
qed

text \<open>
  Claim C10. A pattern may name the same parameter in several segments. A path with as
  many segments as the pattern, equal to it at every segment that does not start with a
  colon, is matched all the same, and \<open>PathParam\<close> gives, for a parameter segment that
  stands at the last position at which it occurs in the pattern, the path segment at that
  position.
\<close>

theorem C10_duplicate_parameter_last_wins:
  assumes "length (segments P) = length (segments Q)"
      and "\<forall>i < length (segments Q).
             \<not> HasPrefix (segments P ! i) '':'' \<longrightarrow> segments P ! i = segments Q ! i"
  shows "\<exists>ps. matchRoute P (segments Q) = Some ps \<and>
           (\<forall>i < length (segments P).
              HasPrefix (segments P ! i) '':'' \<and>
              (\<forall>j. i < j \<and> j < length (segments P) \<longrightarrow> segments P ! j \<noteq> segments P ! i) \<longrightarrow>
              PathParam \<lparr>httpRequest = r, params = ps\<rparr> (drop 1 (segments P ! i)) =
                segments Q ! i)"
proof -
  from matchRoute_Some_iff [OF assms(1)] assms(2)
  obtain ps where ps: "matchRoute P (segments Q) = Some ps" by blast
  have "PathParam \<lparr>httpRequest = r, params = ps\<rparr> (drop 1 (segments P ! i)) = segments Q ! i"
    if "i < length (segments P)" "HasPrefix (segments P ! i) '':''"
       "\<forall>j. i < j \<and> j < length (segments P) \<longrightarrow> segments P ! j \<noteq> segments P ! i" for i
    using matchRoute_last_wins [OF ps that] by (simp add: PathParam_def)
  with ps show ?thesis by blast
qed

lemma segments_id_x_id: "segments ''/:id/x/:id'' = ['':id'', ''x'', '':id'']"
  by (simp add: segments_def Trim_def)

lemma segments_1_x_2: "segments ''/1/x/2'' = [''1'', ''x'', ''2'']"
  by (simp add: segments_def Trim_def)

theorem C10_witness:
  "length (segments ''/:id/x/:id'') = length (segments ''/1/x/2'') \<and>
   (\<exists>ps. matchRoute ''/:id/x/:id'' (segments ''/1/x/2'') = Some ps \<and>
      PathParam \<lparr>httpRequest = \<lparr>Method = ''GET'', URL_Path = ''/1/x/2'', URL_Query = Map.empty,
                                reqHeader = Map.empty, reqBody = []\<rparr>,
                 params = ps\<rparr> ''id'' = ''2'')"
proof -
  let ?r = "\<lparr>Method = ''GET'', URL_Path = ''/1/x/2'', URL_Query = Map.empty,
             reqHeader = Map.empty, reqBody = []\<rparr>"
  have len: "length (segments ''/:id/x/:id'') = length (segments ''/1/x/2'')"
    by (simp add: segments_id_x_id segments_1_x_2)
  have lits: "\<forall>i < length (segments ''/1/x/2'').
                \<not> HasPrefix (segments ''/:id/x/:id'' ! i) '':'' \<longrightarrow>
                segments ''/:id/x/:id'' ! i = segments ''/1/x/2'' ! i"
    by (simp add: segments_id_x_id segments_1_x_2 HasPrefix_def less_Suc_eq)
  from C10_duplicate_parameter_last_wins [OF len lits, of ?r]
  obtain ps where ps: "matchRoute ''/:id/x/:id'' (segments ''/1/x/2'') = Some ps"
    and last: "\<forall>i < length (segments ''/:id/x/:id'').
              HasPrefix (segments ''/:id/x/:id'' ! i) '':'' \<and>
              (\<forall>j. i < j \<and> j < length (segments ''/:id/x/:id'') \<longrightarrow>
                   segments ''/:id/x/:id'' ! j \<noteq> segments ''/:id/x/:id'' ! i) \<longrightarrow>
              PathParam \<lparr>httpRequest = ?r, params = ps\<rparr> (drop 1 (segments ''/:id/x/:id'' ! i)) =
                segments ''/1/x/2'' ! i"
    by blast
  from last [rule_format, of 2]
  have "PathParam \<lparr>httpRequest = ?r, params = ps\<rparr> ''id'' = ''2''"
    by (simp add: segments_id_x_id segments_1_x_2 HasPrefix_def)
  with ps len show ?thesis by blast
qed

lemma routesOf_addRoute:
  "routesOf (addRoute m p h s) m' =
     (if m' = m then routesOf s m @ [\<lparr>path = p, handler = h\<rparr>] else routesOf s m')"
  by (simp add: addRoute_def routesOf_def)

lemma routesOf_register_all:
  "routesOf (foldl register s regs) m = routesOf s m @ registered m regs"
proof (induction regs arbitrary: s)
  case Nil
  then show ?case by (simp add: registered_def)
next
  case (Cons reg regs)
  then show ?case by (simp add: register_def routesOf_addRoute registered_def)
qed

lemma routes_Some_routesOf: "routesOf s m \<noteq> [] \<Longrightarrow> routes s m = Some (routesOf s m)"
  by (auto simp: routesOf_def split: option.splits)

lemma routeLoop_first_match:
  "k < length rs \<Longrightarrow> matchRoute (path (rs ! k)) pp = Some ps \<Longrightarrow>
     \<forall>j < k. matchRoute (path (rs ! j)) pp = None \<Longrightarrow>
     routeLoop rs pp w r env = invoke (rs ! k) ps w r env"
proof (induction rs arbitrary: k)
  case Nil
  then show ?case by simp
next
  case (Cons route rest)
  show ?case
  proof (cases k)
    case 0
    with Cons.prems show ?thesis by (simp add: invoke_def)
  next
    case (Suc k')
    from Cons.prems(3) Suc have "matchRoute (path route) pp = None" by auto
    moreover from Cons.prems(3) Suc
    have "\<forall>j < k'. matchRoute (path (rest ! j)) pp = None" by auto
    ultimately show ?thesis using Cons.IH [of k'] Cons.prems(1,2) Suc by simp
  qed
qed

text \<open>
  Claim C2. \<open>addRoute\<close> appends to the list of its method: after any registrations on a
  new server, the routes of a method are its registrations in the order they were made.
  A request whose path matches the \<open>k\<close>-th of them and none before it gets the
  handler of the \<open>k\<close>-th route, called with the parameters of that match.
\<close>

theorem C2_first_registered_match_wins:
  assumes "s = foldl register (NewServer numCPU) regs"
      and "rs = registered (Method r) regs"
      and "k < length rs"
      and "matchRoute (path (rs ! k)) (segments (URL_Path r)) = Some ps"
      and "\<forall>j < k. matchRoute (path (rs ! j)) (segments (URL_Path r)) = None"
  shows "routes s (Method r) = Some rs \<and>
         handleRequest s w r env = invoke (rs ! k) ps w r env"
proof -
  have "routesOf s (Method r) = rs"
    using assms(1,2) by (simp add: routesOf_register_all) (simp add: routesOf_def NewServer_def)
  moreover from assms(3) have "rs \<noteq> []" by auto
  ultimately have rs: "routes s (Method r) = Some rs"
    using routes_Some_routesOf [of s "Method r"] by simp
  have "handleRequest s w r env = routeLoop rs (segments (URL_Path r)) w r env"
    using rs by (simp add: handleRequest_def segments_def)
  also have "\<dots> = invoke (rs ! k) ps w r env"
    using assms(3,4,5) by (rule routeLoop_first_match)
  finally show ?thesis using rs by simp
qed

theorem C2_witness:
  "handleRequest
     (foldl register (NewServer 1)
        [(''GET'', ''/get-all-users'', getAllUsers), (''GET'', ''/get-user/:userId'', getUser)])
     newWriter
     \<lparr>Method = ''GET'', URL_Path = ''/get-user/abc'', URL_Query = Map.empty,
      reqHeader = Map.empty, reqBody = []\<rparr>
     NewUserRepository =
   invoke \<lparr>path = ''/get-user/:userId'', handler = getUser\<rparr> [''userId'' \<mapsto> ''abc'']
     newWriter
     \<lparr>Method = ''GET'', URL_Path = ''/get-user/abc'', URL_Query = Map.empty,
      reqHeader = Map.empty, reqBody = []\<rparr>
     NewUserRepository"
proof -
  let ?regs = "[(''GET'', ''/get-all-users'', getAllUsers),
                (''GET'', ''/get-user/:userId'', getUser)]"
  let ?r = "\<lparr>Method = ''GET'', URL_Path = ''/get-user/abc'', URL_Query = Map.empty,
             reqHeader = Map.empty, reqBody = []\<rparr>"
  have rs: "registered (Method ?r) ?regs =
              [\<lparr>path = ''/get-all-users'', handler = getAllUsers\<rparr>,
               \<lparr>path = ''/get-user/:userId'', handler = getUser\<rparr>]"
    by (simp add: registered_def)
  have k: "1 < length (registered (Method ?r) ?regs)"
    by (simp add: registered_def)
  have hit: "matchRoute (path (registered (Method ?r) ?regs ! 1)) (segments (URL_Path ?r)) =
               Some [''userId'' \<mapsto> ''abc'']"
    by (simp add: registered_def segments_get_user_abc matchRoute_def Trim_def HasPrefix_def)
  have miss: "\<forall>j < 1. matchRoute (path (registered (Method ?r) ?regs ! j))
                         (segments (URL_Path ?r)) = None"
    by (simp add: registered_def segments_get_user_abc matchRoute_def Trim_def)
  from C2_first_registered_match_wins [where numCPU = 1 and w = newWriter and env = NewUserRepository,
      OF refl refl k hit miss]
  show ?thesis by (simp add: registered_def)
qed

section \<open>Properties of the header map of the writer\<close>

lemma canonical_Content_Type [simp]:
  "CanonicalMIMEHeaderKey ''Content-Type'' = ''Content-Type''"
  by code_simp

lemma canonical_Transfer_Encoding [simp]:
  "CanonicalMIMEHeaderKey ''Transfer-Encoding'' = ''Transfer-Encoding''"
  by code_simp

lemma canonical_X_Content_Type_Options [simp]:
  "CanonicalMIMEHeaderKey ''X-Content-Type-Options'' = ''X-Content-Type-Options''"
  by code_simp


lemma canonical_content_type: "CanonicalMIMEHeaderKey ''content-type'' = ''Content-Type''"
  by code_simp

lemma canonical_space: "CanonicalMIMEHeaderKey ''x trace'' = ''x trace''"
  by code_simp

lemma finite_map_has_list:
  "finite (dom m) \<Longrightarrow> \<exists>kvs. map_of kvs = m \<and> distinct (map fst kvs)"
proof (induction m rule: finite_Map_induct)
  case empty
  show ?case by (rule exI [of _ "[]"]) simp
next
  case (update k v m)
  then obtain kvs where kvs: "map_of kvs = m" "distinct (map fst kvs)" by blast
  from kvs(1) update.hyps(2) have "k \<notin> fst ` set kvs"
    by (simp add: dom_map_of_conv_image_fst [symmetric])
  with kvs have "map_of ((k, v) # kvs) = m(k \<mapsto> v) \<and> distinct (map fst ((k, v) # kvs))"
    by simp
  then show ?case by (rule exI)
qed

lemma rangeOrder_props:
  assumes "finite (dom m)"
  shows "map_of (rangeOrder m) = m \<and> distinct (map fst (rangeOrder m))"
  unfolding rangeOrder_def using finite_map_has_list [OF assms] by (rule someI_ex)

lemma rangeOrder_empty [simp]: "rangeOrder Map.empty = []"
  using rangeOrder_props [of Map.empty] by simp

lemma rangeOrder_single [simp]: "rangeOrder [k \<mapsto> v] = [(k, v)]"
proof -
  let ?kvs = "rangeOrder [k \<mapsto> v]"
  have p: "map_of ?kvs = [k \<mapsto> v]" and d: "distinct (map fst ?kvs)"
    using rangeOrder_props [of "[k \<mapsto> v]"] by simp_all
  from p have "fst ` set ?kvs = dom [k \<mapsto> v]"
    by (simp only: dom_map_of_conv_image_fst [symmetric])
  then have keys: "set (map fst ?kvs) = {k}" by simp
  show ?thesis
  proof (cases ?kvs)
    case Nil
    with keys show ?thesis by simp
  next
    case (Cons a rest)
    have "rest = []"
    proof (cases rest)
      case Nil
      then show ?thesis .
    next
      case (Cons b rest')
      with \<open>?kvs = a # rest\<close> keys have "fst a = k" "fst b = k" by auto
      with \<open>?kvs = a # rest\<close> Cons d show ?thesis by simp
    qed
    with Cons keys have "?kvs = [a]" "fst a = k" by auto
    moreover from this p have "snd a = v"
      by (cases a) (auto simp: fun_eq_iff split: if_splits)
    ultimately show ?thesis by (cases a) simp
  qed
qed

lemma wCodes_fold_HeaderSet:
  "wCodes (fold (\<lambda>kv. HeaderSet (fst kv) (snd kv)) kvs w) = wCodes w \<and>
   wBody (fold (\<lambda>kv. HeaderSet (fst kv) (snd kv)) kvs w) = wBody w"
  by (induction kvs arbitrary: w) (simp_all add: HeaderSet_def)

lemma wCodes_setHeaders [simp]: "wCodes (setHeaders m w) = wCodes w"
  by (simp add: setHeaders_def wCodes_fold_HeaderSet)

lemma wBody_setHeaders [simp]: "wBody (setHeaders m w) = wBody w"
  by (simp add: setHeaders_def wCodes_fold_HeaderSet)

lemma setHeaders_empty [simp]: "setHeaders Map.empty w = w"
  by (simp add: setHeaders_def)

lemma setHeaders_single [simp]: "setHeaders [k \<mapsto> v] w = HeaderSet k v w"
  by (simp add: setHeaders_def)



section \<open>Properties of the response\<close>

lemmas response_defs =
  Header_def Status_def writeHeaders_def End_def Json_def Write_def Encode_def
  WriteHeader_def WriterWrite_def HeaderSet_def Let_def

lemma performAll_snoc: "performAll r (cs @ [c]) = perform (performAll r cs) c"
  by (simp add: performAll_def)

lemma performAll_Cons: "performAll r (c # cs) = performAll (perform r c) cs"
  by (simp add: performAll_def)

lemma performAll_Nil: "performAll r [] = r"
  by (simp add: performAll_def)

lemma writeHeaders_flushed: "headerWritten r \<Longrightarrow> writeHeaders r = r"
  by (simp add: writeHeaders_def)

lemma perform_flushed:
  "headerWritten r \<Longrightarrow>
     headerWritten (perform r c) \<and>
     wCodes (writer (perform r c)) = wCodes (writer r) \<and>
     wHeader (writer (perform r c)) = wHeader (writer r) \<and>
     headers (perform r c) = headers r"
  by (cases c) (simp_all add: response_defs split: prod.splits)

lemma perform_unflushed:
  "\<not> headerWritten r \<Longrightarrow>
     (headerWritten (perform r c) \<and> wCodes (writer (perform r c)) = wCodes (writer r) @ [status r]) \<or>
     (\<not> headerWritten (perform r c) \<and> writer (perform r c) = writer r)"
  by (cases c) (simp_all add: response_defs split: prod.splits)

lemma performAll_flushed:
  "headerWritten r \<Longrightarrow>
     headerWritten (performAll r cs) \<and>
     wCodes (writer (performAll r cs)) = wCodes (writer r) \<and>
     wHeader (writer (performAll r cs)) = wHeader (writer r) \<and>
     headers (performAll r cs) = headers r"
proof (induction cs rule: rev_induct)
  case Nil
  then show ?case by (simp add: performAll_Nil)
next
  case (snoc c cs)
  then show ?case using perform_flushed [of "performAll r cs" c]
    by (simp add: performAll_snoc)
qed

lemma performAll_flush_count:
  "(headerWritten (performAll (NewResponse w) cs) \<and>
      length (wCodes (writer (performAll (NewResponse w) cs))) = length (wCodes w) + 1) \<or>
   (\<not> headerWritten (performAll (NewResponse w) cs) \<and>
      writer (performAll (NewResponse w) cs) = w)"
proof (induction cs rule: rev_induct)
  case Nil
  then show ?case by (simp add: performAll_Nil NewResponse_def)
next
  case (snoc c cs)
  let ?r = "performAll (NewResponse w) cs"
  show ?case
  proof (cases "headerWritten ?r")
    case True
    with snoc perform_flushed [of ?r c] show ?thesis by (simp add: performAll_snoc)
  next
    case False
    with snoc have "writer ?r = w" by simp
    with False perform_unflushed [of ?r c] show ?thesis
      by (auto simp: performAll_snoc)
  qed
qed

text \<open>
  Claim C4. However \<open>Header\<close>, \<open>Status\<close>, \<open>Json\<close>, \<open>Write\<close> and \<open>End\<close> are called on a new
  response, and however often, \<open>WriteHeader\<close> is called on the underlying writer at most
  once. Once the headers are written, \<open>writeHeaders\<close> changes nothing, and no later call
  adds a \<open>WriteHeader\<close> or a header to the writer.
\<close>

theorem C4_headers_flushed_at_most_once:
  "length (wCodes (writer (performAll (NewResponse w) cs))) \<le> length (wCodes w) + 1 \<and>
   (headerWritten r \<longrightarrow>
      writeHeaders r = r \<and>
      wCodes (writer (performAll r cs')) = wCodes (writer r) \<and>
      wHeader (writer (performAll r cs')) = wHeader (writer r))"
  using performAll_flush_count [of w cs] performAll_flushed [of r cs'] writeHeaders_flushed [of r]
  by auto

theorem C4_witness:
  "wCodes (writer (performAll (NewResponse newWriter)
      [CallJson (GString ''a''), CallWrite ''b'', CallEnd, CallJson (GString ''c'')])) = [200] \<and>
   headerWritten (End (NewResponse newWriter)) \<and>
   writeHeaders (End (NewResponse newWriter)) = End (NewResponse newWriter) \<and>
   wCodes (writer (performAll (End (NewResponse newWriter)) [CallWrite ''b'', CallEnd])) = [200]"
proof -
  have fl: "headerWritten (End (NewResponse newWriter))"
    by (simp add: response_defs NewResponse_def newWriter_def)
  have one: "wCodes (writer (End (NewResponse newWriter))) = [200]"
    by (simp add: response_defs NewResponse_def newWriter_def)
  have first: "wCodes (writer (performAll (NewResponse newWriter)
      [CallJson (GString ''a''), CallWrite ''b'', CallEnd, CallJson (GString ''c'')])) = [200]"
    by (simp add: performAll_def response_defs NewResponse_def newWriter_def)
  from C4_headers_flushed_at_most_once
         [of newWriter "[CallJson (GString ''a''), CallWrite ''b'', CallEnd, CallJson (GString ''c'')]"
             "End (NewResponse newWriter)" "[CallWrite ''b'', CallEnd]"] fl one first
  show ?thesis by simp
qed


lemma perform_trigger_flushes:
  "c = CallJson v \<or> c = CallWrite d \<or> c = CallEnd \<Longrightarrow> headerWritten (perform r c)"
  by (auto simp: response_defs split: prod.splits)

lemma perform_status_irrelevant:
  "headerWritten r \<Longrightarrow>
     perform (r\<lparr>status := x\<rparr>) c =
       (perform r c)\<lparr>status := status (perform (r\<lparr>status := x\<rparr>) c)\<rparr>"
  by (cases c) (simp_all add: response_defs split: prod.splits)

lemma performAll_status_irrelevant:
  "headerWritten r \<Longrightarrow> \<exists>y. performAll (r\<lparr>status := x\<rparr>) cs = (performAll r cs)\<lparr>status := y\<rparr>"
proof (induction cs arbitrary: r x)
  case Nil
  then show ?case by (auto simp: performAll_Nil)
next
  case (Cons c cs)
  from Cons.prems have fl: "headerWritten (perform r c)"
    using perform_flushed by blast
  from perform_status_irrelevant [OF Cons.prems, of x c]
  obtain y where "perform (r\<lparr>status := x\<rparr>) c = (perform r c)\<lparr>status := y\<rparr>" by blast
  with Cons.IH [OF fl, of y] show ?case by (simp add: performAll_Cons)
qed

text \<open>
  Claim C5. After \<open>Json\<close>, \<open>Write\<close> or \<open>End\<close> the headers are written. From then on
  \<open>Header\<close> leaves the response as it is, and \<open>Status\<close> leaves the writer and the
  headers as they are; whatever is called afterwards, the underlying writer receives
  the same calls as if \<open>Status\<close> or \<open>Header\<close> had not been called.
\<close>

theorem C5_status_and_header_after_flush:
  assumes "c = CallJson v \<or> c = CallWrite d \<or> c = CallEnd"
  shows "headerWritten (perform r c) \<and>
         Header k x (perform r c) = perform r c \<and>
         writer (Status s (perform r c)) = writer (perform r c) \<and>
         headers (Status s (perform r c)) = headers (perform r c) \<and>
         writer (performAll (Header k x (perform r c)) cs) = writer (performAll (perform r c) cs) \<and>
         writer (performAll (Status s (perform r c)) cs) = writer (performAll (perform r c) cs)"
proof -
  from assms have fl: "headerWritten (perform r c)" by (rule perform_trigger_flushes)
  then have h: "Header k x (perform r c) = perform r c" by (simp add: Header_def)
  from performAll_status_irrelevant [OF fl, of "fst (Atoi s)" cs]
  have "writer (performAll (Status s (perform r c)) cs) = writer (performAll (perform r c) cs)"
    by (auto simp: Status_def)
  with fl h show ?thesis by (simp add: Status_def)
qed

theorem C5_witness:
  "headerWritten (perform (NewResponse newWriter) CallEnd) \<and>
   wCodes (writer (performAll (Status ''500'' (perform (NewResponse newWriter) CallEnd))
                     [CallJson (GString ''a'')])) = [200]"
proof -
  have "wCodes (writer (performAll (perform (NewResponse newWriter) CallEnd)
                          [CallJson (GString ''a'')])) = [200]"
    by (simp add: performAll_def response_defs NewResponse_def newWriter_def)
  with C5_status_and_header_after_flush
         [of CallEnd "GString []" "[]" "NewResponse newWriter" "[]" "[]" "''500''"
             "[CallJson (GString ''a'')]"]
  show ?thesis by simp
qed

text \<open>
  Claim C6, as the code has it. \<open>Write\<close> with no bytes writes no body bytes in any state.
  On a response whose headers are written it changes nothing. On a response whose
  headers are not yet written it is the first write: it sets \<open>Transfer-Encoding\<close> to
  \<open>chunked\<close>, writes the headers and the status, and sets the flag.
\<close>

theorem C6_empty_write:
  "wBody (writer (Write [] r)) = wBody (writer r) \<and>
   (headerWritten r \<longrightarrow> Write [] r = r) \<and>
   (\<not> headerWritten r \<longrightarrow>
      Write [] r = writeHeaders (Header ''Transfer-Encoding'' ''chunked'' r) \<and>
      headerWritten (Write [] r) \<and>
      headers (Write [] r) = (headers r)(''Transfer-Encoding'' \<mapsto> ''chunked'') \<and>
      wCodes (writer (Write [] r)) = wCodes (writer r) @ [status r])"
  by (simp add: response_defs)

theorem C6_witness:
  "headerWritten (End (NewResponse newWriter)) \<and>
   Write [] (End (NewResponse newWriter)) = End (NewResponse newWriter) \<and>
   \<not> headerWritten (NewResponse newWriter) \<and>
   headerWritten (Write [] (NewResponse newWriter))"
proof -
  have a: "headerWritten (End (NewResponse newWriter))"
    by (simp add: response_defs NewResponse_def)
  have b: "\<not> headerWritten (NewResponse newWriter)"
    by (simp add: NewResponse_def)
  from C6_empty_write [of "End (NewResponse newWriter)"] C6_empty_write [of "NewResponse newWriter"]
    a b
  show ?thesis by blast
qed

text \<open>
  Claim C6 as it is stated fails on a new response: \<open>Write\<close> with no bytes sets the
  flag and the header \<open>Transfer-Encoding\<close> and calls \<open>WriteHeader\<close>.
\<close>

theorem C6_counterexample:
  "Write [] (NewResponse newWriter) \<noteq> NewResponse newWriter \<and>
   headerWritten (Write [] (NewResponse newWriter)) \<noteq> headerWritten (NewResponse newWriter) \<and>
   headers (Write [] (NewResponse newWriter)) ''Transfer-Encoding'' = Some ''chunked'' \<and>
   headers (NewResponse newWriter) ''Transfer-Encoding'' = None \<and>
   wCodes (writer (Write [] (NewResponse newWriter))) = [200] \<and>
   wCodes (writer (NewResponse newWriter)) = []"
proof -
  have "headerWritten (Write [] (NewResponse newWriter))"
    by (simp add: response_defs NewResponse_def)
  moreover have "\<not> headerWritten (NewResponse newWriter)"
    by (simp add: NewResponse_def)
  moreover have "headers (Write [] (NewResponse newWriter)) ''Transfer-Encoding'' = Some ''chunked''"
    by (simp add: response_defs NewResponse_def)
  moreover have "headers (NewResponse newWriter) ''Transfer-Encoding'' = None"
    by (simp add: NewResponse_def)
  moreover have "wCodes (writer (Write [] (NewResponse newWriter))) = [200]"
    by (simp add: response_defs NewResponse_def newWriter_def)
  moreover have "wCodes (writer (NewResponse newWriter)) = []"
    by (simp add: NewResponse_def newWriter_def)
  ultimately show ?thesis by auto
qed




section \<open>Properties of the demo application\<close>

lemma digitVal_Some_digit:
  assumes "digitVal c \<noteq> None"
  shows "c \<in> set ''0123456789''"
proof -
  from assms have "48 \<le> (of_char c :: nat) \<and> (of_char c :: nat) \<le> 57"
    by (simp add: digitVal_def Let_def split: if_splits)
  then have "(of_char c :: nat) \<in> {48, 49, 50, 51, 52, 53, 54, 55, 56, 57}"
    by simp arith
  then have "(of_char c :: nat) \<in> of_char ` set ''0123456789''"
    by simp
  then obtain d where d: "d \<in> set ''0123456789''" and "(of_char c :: nat) = of_char d"
    by (rule imageE)
  then have "c = d" by (simp only: of_char_eq_iff)
  with d show ?thesis by (simp only:)
qed

lemma parseUint_Inr_digits:
  "parseUint ds n = Inr m \<Longrightarrow> list_all (\<lambda>c. c \<in> set ''0123456789'') ds"
proof (induction ds arbitrary: n)
  case Nil
  then show ?case by simp
next
  case (Cons c cs)
  from Cons.prems have d: "digitVal c \<noteq> None" by (auto split: option.splits)
  then obtain v where v: "digitVal c = Some v" by blast
  with Cons.prems have "parseUint cs (n * 10 + v) = Inr m" by (simp split: if_splits)
  from Cons.IH [OF this] digitVal_Some_digit [OF d] show ?case by simp
qed

lemma Atoi_not_integer:
  assumes "\<not> isInteger s"
  shows "snd (Atoi s) \<noteq> None"
proof (cases s)
  case Nil
  then show ?thesis by (simp add: Atoi_def)
next
  case (Cons c cs)
  let ?ds = "if c = CHR ''-'' \<or> c = CHR ''+'' then cs else s"
  from assms Cons have bad: "?ds = [] \<or> \<not> list_all (\<lambda>c. c \<in> set ''0123456789'') ?ds"
    by (auto simp: isInteger_def Let_def split: if_splits)
  then have "?ds = [] \<or> (\<exists>e. parseUint ?ds 0 = Inl e)"
    using parseUint_Inr_digits [of ?ds 0] by (cases "parseUint ?ds 0") auto
  then show ?thesis using Cons
    by (auto simp: Atoi_def Let_def split: error.splits)
qed

lemma Split_no_sep: "sep \<notin> set s \<Longrightarrow> Split s sep = [s]"
  by (induction s) auto

lemma Split_append_sep: "sep \<notin> set a \<Longrightarrow> Split (a @ sep # b) sep = a # Split b sep"
  by (induction a) auto

lemma Trim_inner:
  assumes "s \<noteq> []" and "hd s \<notin> set cutset" and "last s \<notin> set cutset"
  shows "Trim s cutset = s"
proof -
  from assms(1,2) have "dropWhile (\<lambda>c. c \<in> set cutset) s = s"
    by (cases s) auto
  moreover from assms(1,3) have "dropWhile (\<lambda>c. c \<in> set cutset) (rev s) = rev s"
    by (cases s rule: rev_cases) auto
  ultimately show ?thesis by (simp add: Trim_def)
qed

lemma Trim_leading: "Trim (c # s) [c] = Trim s [c]"
  by (simp add: Trim_def)

lemma segments_get_user_seg:
  assumes "seg \<noteq> []" and "CHR ''/'' \<notin> set seg"
  shows "segments (''/get-user/'' @ seg) = [''get-user'', seg]"
proof -
  from assms(1) have "last seg \<in> set seg" by simp
  with assms(2) have "last seg \<noteq> CHR ''/''" by metis
  with assms(1) have "last (''get-user/'' @ seg) \<notin> set ''/''" by simp
  then have "Trim (''get-user/'' @ seg) ''/'' = ''get-user/'' @ seg"
    by (intro Trim_inner) auto
  then have "Trim (''/get-user/'' @ seg) ''/'' = ''get-user/'' @ seg"
    using Trim_leading [of "CHR ''/''" "''get-user/'' @ seg"] by simp
  moreover have "Split (''get-user'' @ CHR ''/'' # seg) (CHR ''/'') = ''get-user'' # Split seg (CHR ''/'')"
    by (rule Split_append_sep) simp
  ultimately show ?thesis using assms(2) by (simp add: segments_def Split_no_sep)
qed

lemma Atoi_400: "Atoi ''400'' = (400, None)"
  by (simp add: Atoi_def digitVal_def maxInt_def maxUint64_def)

lemma routes_app_GET:
  "routes (app numCPU decodeUser) ''GET'' =
     Some [\<lparr>path = ''/get-all-users'', handler = getAllUsers\<rparr>,
           \<lparr>path = ''/get-user/:userId'', handler = getUser\<rparr>]"
  by (simp add: app_def Get_def Post_def addRoute_def routesOf_def NewServer_def)

lemma routes_app_POST:
  "routes (app numCPU decodeUser) ''POST'' =
     Some [\<lparr>path = ''/add-student'', handler = addStudent decodeUser\<rparr>]"
  by (simp add: app_def Get_def Post_def addRoute_def routesOf_def NewServer_def)

lemma segments_get_all_users: "segments ''/get-all-users'' = [''get-all-users'']"
  by (simp add: segments_def Trim_def)

lemma segments_add_student: "segments ''/add-student'' = [''add-student'']"
  by (simp add: segments_def Trim_def)

lemma Json_encodable:
  "encodable v \<Longrightarrow>
     writer (fst (Json v (NewResponse w\<lparr>status := c\<rparr>))) =
       w\<lparr>wHeader := (wHeader w)(''Content-Type'' \<mapsto> ''application/json''),
         wCodes := wCodes w @ [c], wBody := wBody w @ [WJson v]\<rparr>"
  by (simp add: Json_def Header_def writeHeaders_def Encode_def WriteHeader_def HeaderSet_def
        NewResponse_def)

text \<open>
  Claim C8. A \<open>GET\<close> request for \<open>/get-user/\<close> followed by one segment that is not the
  text of an integer is given to the handler of \<open>/get-user/:userId\<close> with that segment
  as \<open>userId\<close>, and the handler answers with status 400 and the JSON value
  \<open>{"error": "Invalid UserId"}\<close>; the repository is left as it is.
\<close>

theorem C8_get_user_invalid_id:
  assumes "Method r = ''GET''" and "URL_Path r = ''/get-user/'' @ seg"
      and "seg \<noteq> []" and "CHR ''/'' \<notin> set seg" and "\<not> isInteger seg"
  shows "handleRequest (app numCPU decodeUser) w r repo =
           invoke \<lparr>path = ''/get-user/:userId'', handler = getUser\<rparr> [''userId'' \<mapsto> seg]
             w r repo \<and>
         handleRequest (app numCPU decodeUser) w r repo =
           (w\<lparr>wHeader := (wHeader w)(''Content-Type'' \<mapsto> ''application/json''),
              wCodes := wCodes w @ [400],
              wBody := wBody w @ [WJson (GObject [(''error'', GString ''Invalid UserId'')])]\<rparr>,
            repo)"
proof -
  have segs: "Split (Trim (URL_Path r) ''/'') (CHR ''/'') = [''get-user'', seg]"
    using segments_get_user_seg [OF assms(3,4)] assms(2) by (simp add: segments_def)
  have miss: "matchRoute ''/get-all-users'' [''get-user'', seg] = None"
    using segments_get_all_users by (simp add: matchRoute_def segments_def)
  have hit: "matchRoute ''/get-user/:userId'' [''get-user'', seg] = Some [''userId'' \<mapsto> seg]"
    using segments_get_user by (simp add: matchRoute_def segments_def HasPrefix_def)
  have routed: "handleRequest (app numCPU decodeUser) w r repo =
      invoke \<lparr>path = ''/get-user/:userId'', handler = getUser\<rparr> [''userId'' \<mapsto> seg] w r repo"
    using assms(1) by (simp add: handleRequest_def routes_app_GET segs miss hit invoke_def)
  have "invoke \<lparr>path = ''/get-user/:userId'', handler = getUser\<rparr> [''userId'' \<mapsto> seg] w r repo =
          (writer (fst (Json (errorValue ''Invalid UserId'') (NewResponse w\<lparr>status := 400\<rparr>))), repo)"
  proof -
    from Atoi_not_integer [OF assms(5)] obtain n e where "Atoi seg = (n, Some e)"
      by (cases "Atoi seg") auto
    then show ?thesis
      by (simp add: invoke_def getUser_def PathParam_def Status_def Atoi_400)
  qed
  also have "\<dots> = (w\<lparr>wHeader := (wHeader w)(''Content-Type'' \<mapsto> ''application/json''),
              wCodes := wCodes w @ [400],
              wBody := wBody w @ [WJson (GObject [(''error'', GString ''Invalid UserId'')])]\<rparr>,
            repo)"
    by (simp add: Json_encodable errorValue_def)
  finally show ?thesis using routed by simp
qed


theorem C8_witness:
  "\<not> isInteger ''abc'' \<and>
   wCodes (fst (handleRequest (app 1 (\<lambda>b. None)) newWriter
                 \<lparr>Method = ''GET'', URL_Path = ''/get-user/abc'', URL_Query = Map.empty,
                  reqHeader = Map.empty, reqBody = []\<rparr>
                 NewUserRepository)) = [400] \<and>
   wBody (fst (handleRequest (app 1 (\<lambda>b. None)) newWriter
                 \<lparr>Method = ''GET'', URL_Path = ''/get-user/abc'', URL_Query = Map.empty,
                  reqHeader = Map.empty, reqBody = []\<rparr>
                 NewUserRepository)) = [WJson (GObject [(''error'', GString ''Invalid UserId'')])]"
proof -
  let ?r = "\<lparr>Method = ''GET'', URL_Path = ''/get-user/abc'', URL_Query = Map.empty,
             reqHeader = Map.empty, reqBody = []\<rparr>"
  have m: "Method ?r = ''GET''" by simp
  have p: "URL_Path ?r = ''/get-user/'' @ ''abc''" by simp
  have ne: "''abc'' \<noteq> []" by simp
  have ns: "CHR ''/'' \<notin> set ''abc''" by simp
  have ni: "\<not> isInteger ''abc''" by (simp add: isInteger_def)
  from C8_get_user_invalid_id [OF m p ne ns ni, of 1 "\<lambda>b. None" newWriter NewUserRepository]
  have "handleRequest (app 1 (\<lambda>b. None)) newWriter ?r NewUserRepository =
          (newWriter\<lparr>wHeader := (wHeader newWriter)(''Content-Type'' \<mapsto> ''application/json''),
             wCodes := wCodes newWriter @ [400],
             wBody := wBody newWriter @ [WJson (GObject [(''error'', GString ''Invalid UserId'')])]\<rparr>,
           NewUserRepository)"
    by (rule conjunct2)
  with ni show ?thesis by (simp add: newWriter_def)
qed

lemma Add_users: "users (snd (Add user ur)) = users ur @ [user\<lparr>ID := int (length (users ur)) + 1\<rparr>]"
  by (simp add: Add_def Let_def)

lemma addAll_snoc: "addAll ur (us @ [u]) = snd (Add u (addAll ur us))"
  by (simp add: addAll_def)

lemma addAll_ids:
  "map ID (users (addAll NewUserRepository added)) =
     map int [1 ..< Suc (length (users (addAll NewUserRepository added)))]"
proof (induction added rule: rev_induct)
  case Nil
  have "[1 ..< Suc 3] = [1, 2, 3]" by (simp add: upt_rec)
  then show ?case by (simp add: addAll_def NewUserRepository_def)
next
  case (snoc u us)
  then show ?case by (simp add: addAll_snoc Add_users)
qed

lemma addAll_length: "3 \<le> length (users (addAll NewUserRepository added))"
  by (induction added rule: rev_induct)
     (simp_all add: addAll_def NewUserRepository_def Add_users)

lemma Max_ids: "0 < n \<Longrightarrow> Max (set (map int [1 ..< Suc n])) = int n"
  by (rule Max_eqI) auto

lemma maxID_addAll:
  "maxID (addAll NewUserRepository added) = int (length (users (addAll NewUserRepository added)))"
proof -
  have "0 < length (users (addAll NewUserRepository added))"
    using addAll_length [of added] by arith
  then have "Max (set (map int [1 ..< Suc (length (users (addAll NewUserRepository added)))])) =
               int (length (users (addAll NewUserRepository added)))"
    by (rule Max_ids)
  then show ?thesis by (simp only: maxID_def addAll_ids)
qed

lemma Atoi_201: "Atoi ''201'' = (201, None)"
  by (simp add: Atoi_def digitVal_def maxInt_def maxUint64_def)

lemma Atoi_200: "Atoi ''200'' = (200, None)"
  by (simp add: Atoi_def digitVal_def maxInt_def maxUint64_def)

lemma encodable_userValue: "encodable (userValue u)"
  by (simp add: userValue_def)

lemma encodable_users: "encodable (GSlice (map userValue us))"
  by (simp add: list_all_iff encodable_userValue)

lemma handle_add_student:
  assumes "Method r = ''POST''" and "URL_Path r = ''/add-student''"
      and "decodeUser (reqBody r) = Some u" and "Name u \<noteq> []" and "Phone u \<noteq> []"
      and "0 < Age u"
  shows "handleRequest (app numCPU decodeUser) w r repo =
           (w\<lparr>wHeader := (wHeader w)(''Content-Type'' \<mapsto> ''application/json''),
              wCodes := wCodes w @ [201],
              wBody := wBody w @
                [WJson (GObject [(''message'', GString ''Student added successfully''),
                                 (''user'', userValue (fst (Add u repo)))])]\<rparr>,
            snd (Add u repo))"
proof -
  have segs: "Split (Trim (URL_Path r) ''/'') (CHR ''/'') = [''add-student'']"
    using segments_add_student assms(2) by (simp add: segments_def)
  have hit: "matchRoute ''/add-student'' [''add-student''] = Some Map.empty"
    using segments_add_student by (simp add: matchRoute_def segments_def HasPrefix_def)
  have "handleRequest (app numCPU decodeUser) w r repo =
          (writer (fst (Json (GObject [(''message'', GString ''Student added successfully''),
                                       (''user'', userValue (fst (Add u repo)))])
                          (NewResponse w\<lparr>status := 201\<rparr>))),
           snd (Add u repo))"
    using assms(1,3,4,5,6)
    by (simp add: handleRequest_def routes_app_POST segs hit addStudent_def Body_def
          Status_def Atoi_201 split: prod.splits)
  then show ?thesis by (simp add: Json_encodable encodable_userValue)
qed

lemma handle_get_all_users:
  assumes "Method r = ''GET''" and "URL_Path r = ''/get-all-users''"
  shows "handleRequest (app numCPU decodeUser) w r repo =
           (w\<lparr>wHeader := (wHeader w)(''Content-Type'' \<mapsto> ''application/json''),
              wCodes := wCodes w @ [200],
              wBody := wBody w @ [WJson (GSlice (map userValue (users repo)))]\<rparr>,
            repo)"
proof -
  have segs: "Split (Trim (URL_Path r) ''/'') (CHR ''/'') = [''get-all-users'']"
    using segments_get_all_users assms(2) by (simp add: segments_def)
  have hit: "matchRoute ''/get-all-users'' [''get-all-users''] = Some Map.empty"
    using segments_get_all_users by (simp add: matchRoute_def segments_def HasPrefix_def)
  have "handleRequest (app numCPU decodeUser) w r repo =
          (writer (fst (Json (GSlice (map userValue (users repo)))
                          (NewResponse w\<lparr>status := 200\<rparr>))), repo)"
    using assms(1)
    by (simp add: handleRequest_def routes_app_GET segs hit getAllUsers_def GetAll_def
          Status_def Atoi_200)
  then show ?thesis using encodable_users [of "users repo"] by (simp add: Json_encodable)
qed

text \<open>
  Claim C7. The repository starts with the users 1, 2 and 3, and any users have been
  added to it with \<open>Add\<close>. Then \<open>POST /add-student\<close> with the body of the scenario, which
  the decoder reads as a user named Teja with phone 123 and age 30, is answered with
  status 201 and appends that user under an identifier one greater than the greatest
  identifier before; \<open>GET /get-all-users\<close> after it is answered with status 200 and the
  list of all users, the new one among them.
\<close>

theorem C7_add_student_then_get_all:
  assumes "repo = addAll NewUserRepository added"
      and "Method post = ''POST''" and "URL_Path post = ''/add-student''"
      and "reqBody post = tejaBody"
      and "decodeUser tejaBody = Some u"
      and "Name u = ''Teja''" and "Phone u = ''123''" and "Age u = 30"
      and "Method get = ''GET''" and "URL_Path get = ''/get-all-users''"
      and "handleRequest (app numCPU decodeUser) w post repo = (w', repo')"
      and "handleRequest (app numCPU decodeUser) w2 get repo' = (w2', repo'')"
  shows "wCodes w' = wCodes w @ [201] \<and>
         users repo' = users repo @ [u\<lparr>ID := maxID repo + 1\<rparr>] \<and>
         wCodes w2' = wCodes w2 @ [200] \<and>
         wBody w2' = wBody w2 @ [WJson (GSlice (map userValue (users repo')))] \<and>
         userValue (u\<lparr>ID := maxID repo + 1\<rparr>) \<in> set (map userValue (users repo')) \<and>
         repo'' = repo'"
proof -
  have dec: "decodeUser (reqBody post) = Some u" using assms(4,5) by simp
  have "handleRequest (app numCPU decodeUser) w post repo =
           (w\<lparr>wHeader := (wHeader w)(''Content-Type'' \<mapsto> ''application/json''),
              wCodes := wCodes w @ [201],
              wBody := wBody w @
                [WJson (GObject [(''message'', GString ''Student added successfully''),
                                 (''user'', userValue (fst (Add u repo)))])]\<rparr>,
            snd (Add u repo))"
    using assms(6,7,8)
    by (intro handle_add_student [where r = post and decodeUser = decodeUser and u = u,
                                    OF assms(2,3) dec]) simp_all
  with assms(11) have w': "wCodes w' = wCodes w @ [201]" and r': "repo' = snd (Add u repo)"
    by auto
  have "maxID repo = int (length (users repo))"
    using assms(1) by (simp add: maxID_addAll)
  with r' have us: "users repo' = users repo @ [u\<lparr>ID := maxID repo + 1\<rparr>]"
    by (simp add: Add_users)
  from handle_get_all_users [OF assms(9,10), of numCPU decodeUser w2 repo'] assms(12)
  have "wCodes w2' = wCodes w2 @ [200]"
    and "wBody w2' = wBody w2 @ [WJson (GSlice (map userValue (users repo')))]"
    and "repo'' = repo'"
    by auto
  with w' us show ?thesis by simp
qed


theorem C7_witness:
  "decodeTeja tejaBody = Some \<lparr>ID = 0, Name = ''Teja'', Phone = ''123'', Age = 30\<rparr> \<and>
   wCodes (fst (handleRequest (app 1 decodeTeja) newWriter
                  \<lparr>Method = ''POST'', URL_Path = ''/add-student'', URL_Query = Map.empty,
                   reqHeader = Map.empty, reqBody = tejaBody\<rparr>
                  NewUserRepository)) = [201] \<and>
   map ID (users (snd (handleRequest (app 1 decodeTeja) newWriter
                  \<lparr>Method = ''POST'', URL_Path = ''/add-student'', URL_Query = Map.empty,
                   reqHeader = Map.empty, reqBody = tejaBody\<rparr>
                  NewUserRepository))) = [1, 2, 3, 4]"
proof -
  let ?post = "\<lparr>Method = ''POST'', URL_Path = ''/add-student'', URL_Query = Map.empty,
                reqHeader = Map.empty, reqBody = tejaBody\<rparr>"
  let ?get = "\<lparr>Method = ''GET'', URL_Path = ''/get-all-users'', URL_Query = Map.empty,
               reqHeader = Map.empty, reqBody = []\<rparr>"
  let ?u = "\<lparr>ID = 0, Name = ''Teja'', Phone = ''123'', Age = 30\<rparr>"
  let ?h1 = "handleRequest (app 1 decodeTeja) newWriter ?post NewUserRepository"
  let ?h2 = "handleRequest (app 1 decodeTeja) newWriter ?get (snd ?h1)"
  have repo: "NewUserRepository = addAll NewUserRepository []" by (simp add: addAll_def)
  have dec: "decodeTeja tejaBody = Some ?u" by (simp add: decodeTeja_def)
  have mx: "maxID NewUserRepository = 3" by (simp add: maxID_def NewUserRepository_def)
  have ids: "map ID (users NewUserRepository) = [1, 2, 3]" by (simp add: NewUserRepository_def)
  have h1: "?h1 = (fst ?h1, snd ?h1)" by simp
  have h2: "?h2 = (fst ?h2, snd ?h2)" by simp
  from C7_add_student_then_get_all
         [where u = ?u and post = ?post and get = ?get and decodeUser = decodeTeja,
          OF repo _ _ _ dec _ _ _ _ _ h1 h2]
  have "wCodes (fst ?h1) = wCodes newWriter @ [201] \<and>
        users (snd ?h1) = users NewUserRepository @ [?u\<lparr>ID := maxID NewUserRepository + 1\<rparr>]"
    by simp
  with dec mx ids show ?thesis by (simp add: newWriter_def)
qed

section \<open>Properties of the admission gate\<close>

lemma count_update:
  "g < length xs \<Longrightarrow>
     length (filter P (xs[g := v])) + (if P (xs ! g) then 1 else 0) =
     length (filter P xs) + (if P v then 1 else 0)"
proof (induction xs arbitrary: g)
  case Nil
  then show ?case by simp
next
  case (Cons x xs)
  then show ?case by (cases g) auto
qed

lemma executing_le_holding: "executing p \<le> holding p"
proof -
  have "length (filter (\<lambda>pl. pl = InHandler) xs) \<le>
        length (filter (\<lambda>pl. pl = InHandler \<or> pl = AtRelease) xs)" for xs :: "place list"
    by (induction xs) auto
  then show ?thesis by (simp add: executing_def holding_def)
qed

lemma step_capacity: "step e p = Some p' \<Longrightarrow> capacity p' = capacity p"
  by (cases e) (auto split: if_splits)

lemma step_inv:
  assumes "step e p = Some p'" and "gateInv p"
  shows "gateInv p'"
proof (cases e)
  case Arrive
  with assms show ?thesis by (auto simp: gateInv_def holding_def)
next
  case (Acquire g)
  with assms have g: "g < length (goroutines p)" "goroutines p ! g = AtSend"
      "queued p < capacity p"
    and p': "p' = p\<lparr>queued := queued p + 1, goroutines := (goroutines p)[g := InHandler]\<rparr>"
    by (auto split: if_splits)
  from count_update [OF g(1), of "\<lambda>pl. pl = InHandler \<or> pl = AtRelease" InHandler] g(2)
  have "holding p' = holding p + 1" by (simp add: holding_def p')
  with assms(2) g(3) show ?thesis by (simp add: gateInv_def p')
next
  case (Leave g x)
  with assms have g: "g < length (goroutines p)" "goroutines p ! g = InHandler"
    and p': "p' = p\<lparr>goroutines := (goroutines p)[g := AtRelease]\<rparr>"
    by (auto split: if_splits)
  from count_update [OF g(1), of "\<lambda>pl. pl = InHandler \<or> pl = AtRelease" AtRelease] g(2)
  have "holding p' = holding p" by (simp add: holding_def p')
  with assms(2) show ?thesis by (simp add: gateInv_def p')
next
  case (Release g)
  with assms have g: "g < length (goroutines p)" "goroutines p ! g = AtRelease"
      "0 < queued p"
    and p': "p' = p\<lparr>queued := queued p - 1, goroutines := (goroutines p)[g := Finished]\<rparr>"
    by (auto split: if_splits)
  from count_update [OF g(1), of "\<lambda>pl. pl = InHandler \<or> pl = AtRelease" Finished] g(2)
  have "holding p' + 1 = holding p" by (simp add: holding_def p')
  with assms(2) g(3) have "holding p' = queued p - 1" and "queued p - 1 \<le> capacity p"
    by (auto simp: gateInv_def)
  moreover have "queued p' = queued p - 1" and "capacity p' = capacity p"
    by (simp_all add: p')
  ultimately show ?thesis by (simp add: gateInv_def)
qed

lemma run_inv: "run es p = Some p' \<Longrightarrow> gateInv p \<Longrightarrow> gateInv p' \<and> capacity p' = capacity p"
proof (induction es arbitrary: p)
  case Nil
  then show ?case by simp
next
  case (Cons e es)
  from Cons.prems(1) obtain q where q: "step e p = Some q" and r: "run es q = Some p'"
    by (auto split: option.splits)
  from step_inv [OF q Cons.prems(2)] Cons.IH [OF r] step_capacity [OF q]
  show ?case by simp
qed

lemma startPool_inv: "gateInv (startPool s)"
  by (simp add: gateInv_def startPool_def holding_def)

lemma holder_has_slot:
  assumes "g < length (goroutines p)"
      and "goroutines p ! g = InHandler \<or> goroutines p ! g = AtRelease"
  shows "0 < holding p"
proof -
  from assms(1) have "goroutines p ! g \<in> set (goroutines p)"
    by (rule nth_mem)
  with assms(2)
  have "goroutines p ! g \<in> set (filter (\<lambda>pl. pl = InHandler \<or> pl = AtRelease) (goroutines p))"
    by simp
  then have "filter (\<lambda>pl. pl = InHandler \<or> pl = AtRelease) (goroutines p) \<noteq> []"
    by (metis empty_iff empty_set)
  then show ?thesis by (simp add: holding_def)
qed

lemma executing_update:
  assumes "g < length (goroutines p)"
  shows "executing (p\<lparr>goroutines := (goroutines p)[g := v]\<rparr>) +
           (if goroutines p ! g = InHandler then 1 else 0) =
         executing p + (if v = InHandler then 1 else 0)"
  using count_update [OF assms, of "\<lambda>pl. pl = InHandler" v] by (simp add: executing_def)

lemma acquire_effect:
  assumes "h < length (goroutines p)" and "goroutines p ! h = AtSend" and "queued p < capacity p"
  shows "\<exists>p'. step (Acquire h) p = Some p' \<and> goroutines p' ! h = InHandler \<and>
           queued p' = queued p + 1 \<and> executing p' = executing p + 1"
proof -
  let ?p' = "p\<lparr>queued := queued p + 1, goroutines := (goroutines p)[h := InHandler]\<rparr>"
  have "step (Acquire h) p = Some ?p'" using assms by simp
  moreover have "goroutines ?p' ! h = InHandler" using assms(1) by simp
  moreover have "executing ?p' = executing p + 1"
    using executing_update [OF assms(1), of InHandler] assms(2) by (simp add: executing_def)
  ultimately show ?thesis by simp
qed

lemma exit_effect:
  assumes "g < length (goroutines p)" and "goroutines p ! g = InHandler"
      and "holding p = queued p" and "queued p \<le> capacity p"
  shows "\<exists>p' p''. step (Leave g x) p = Some p' \<and> goroutines p' ! g = AtRelease \<and>
           queued p' = queued p \<and> executing p' = executing p - 1 \<and> 0 < executing p \<and>
           step (Release g) p' = Some p'' \<and> goroutines p'' ! g = Finished \<and>
           queued p'' = queued p - 1 \<and> 0 < queued p \<and> executing p'' = executing p - 1 \<and>
           (h < length (goroutines p) \<and> goroutines p ! h = AtSend \<longrightarrow>
              step (Acquire h) p'' \<noteq> None)"
proof -
  let ?p' = "p\<lparr>goroutines := (goroutines p)[g := AtRelease]\<rparr>"
  let ?p'' = "?p'\<lparr>queued := queued ?p' - 1, goroutines := (goroutines ?p')[g := Finished]\<rparr>"
  have q: "0 < queued p" using holder_has_slot [of g p] assms(1,2,3) by simp
  have s1: "step (Leave g x) p = Some ?p'" using assms(1,2) by simp
  have g1: "goroutines ?p' ! g = AtRelease" using assms(1) by simp
  have e1: "executing ?p' + 1 = executing p"
    using executing_update [OF assms(1), of AtRelease] assms(2) by simp
  have s2: "step (Release g) ?p' = Some ?p''" using assms(1) q by simp
  have g2: "goroutines ?p'' ! g = Finished" using assms(1) by simp
  have "executing ?p'' = executing ?p'"
    using executing_update [of g ?p' Finished] assms(1) by (simp add: executing_def)
  with e1 have e2: "executing ?p'' = executing p - 1" and e0: "0 < executing p"
    and e1': "executing ?p' = executing p - 1" by simp_all
  have acq: "step (Acquire h) ?p'' \<noteq> None"
    if "h < length (goroutines p) \<and> goroutines p ! h = AtSend"
  proof -
    from that assms(2) have "h \<noteq> g" by auto
    with that have "goroutines ?p'' ! h = AtSend" by simp
    moreover from q assms(4) have "queued ?p'' < capacity ?p''" by simp
    ultimately show ?thesis using that by simp
  qed
  have "step (Leave g x) p = Some ?p' \<and> goroutines ?p' ! g = AtRelease \<and>
        queued ?p' = queued p \<and> executing ?p' = executing p - 1 \<and> 0 < executing p \<and>
        step (Release g) ?p' = Some ?p'' \<and> goroutines ?p'' ! g = Finished \<and>
        queued ?p'' = queued p - 1 \<and> 0 < queued p \<and> executing ?p'' = executing p - 1 \<and>
        (h < length (goroutines p) \<and> goroutines p ! h = AtSend \<longrightarrow>
           step (Acquire h) ?p'' \<noteq> None)"
    using s1 g1 e1' e0 s2 g2 q e2 acq by simp
  then show ?thesis by blast
qed

lemma run_append: "run (es @ fs) p = (case run es p of None \<Rightarrow> None | Some q \<Rightarrow> run fs q)"
  by (induction es arbitrary: p) (simp_all split: option.splits)

lemma run_arrivals:
  "run (replicate n Arrive) p = Some (p\<lparr>goroutines := goroutines p @ replicate n AtSend\<rparr>)"
proof (induction n arbitrary: p)
  case 0
  then show ?case by simp
next
  case (Suc n)
  have "(goroutines p @ [AtSend]) @ replicate n AtSend = goroutines p @ replicate (Suc n) AtSend"
    by simp
  with Suc show ?case by simp
qed

lemma run_acquires:
  "k \<le> c \<Longrightarrow> k \<le> n \<Longrightarrow>
     run (map Acquire [0 ..< k]) \<lparr>capacity = c, queued = 0, goroutines = replicate n AtSend\<rparr> =
       Some \<lparr>capacity = c, queued = k,
             goroutines = replicate k InHandler @ replicate (n - k) AtSend\<rparr>"
proof (induction k)
  case 0
  then show ?case by simp
next
  case (Suc k)
  let ?q = "\<lparr>capacity = c, queued = k,
             goroutines = replicate k InHandler @ replicate (n - k) AtSend\<rparr>"
  from Suc have IH: "run (map Acquire [0 ..< k])
      \<lparr>capacity = c, queued = 0, goroutines = replicate n AtSend\<rparr> = Some ?q"
    by simp
  from Suc.prems obtain m where m: "n - k = Suc m" "n - Suc k = m"
    by (cases "n - k") auto
  have upd: "(replicate k InHandler @ replicate (Suc m) AtSend)[k := InHandler] =
               replicate (Suc k) InHandler @ replicate m AtSend"
    by (simp add: list_update_append replicate_append_same)
  have nth: "(replicate k InHandler @ replicate (Suc m) AtSend) ! k = AtSend"
    by (simp add: nth_append)
  have "step (Acquire k) ?q =
          Some \<lparr>capacity = c, queued = Suc k,
                goroutines = replicate (Suc k) InHandler @ replicate (n - Suc k) AtSend\<rparr>"
    using Suc.prems m upd nth by simp
  with IH show ?case by (simp add: run_append)
qed

lemma run_full_gate:
  "run (replicate (Suc (maxWorkers s)) Arrive @ map Acquire [0 ..< maxWorkers s]) (startPool s) =
     Some \<lparr>capacity = maxWorkers s, queued = maxWorkers s,
           goroutines = replicate (maxWorkers s) InHandler @ [AtSend]\<rparr>"
proof -
  have "run (replicate (Suc (maxWorkers s)) Arrive) (startPool s) =
          Some \<lparr>capacity = maxWorkers s, queued = 0,
                goroutines = replicate (Suc (maxWorkers s)) AtSend\<rparr>"
    by (simp only: run_arrivals) (simp add: startPool_def)
  moreover have "run (map Acquire [0 ..< maxWorkers s])
          \<lparr>capacity = maxWorkers s, queued = 0,
           goroutines = replicate (Suc (maxWorkers s)) AtSend\<rparr> =
        Some \<lparr>capacity = maxWorkers s, queued = maxWorkers s,
              goroutines = replicate (maxWorkers s) InHandler @
                           replicate (Suc (maxWorkers s) - maxWorkers s) AtSend\<rparr>"
    by (rule run_acquires) simp_all
  ultimately show ?thesis by (simp add: run_append)
qed

text \<open>
  Claim C3. The channel of a new server holds 100 slots for each logical CPU. However
  the goroutines that serve requests are interleaved, the goroutines between their send
  and their deferred receive are as many as the slots taken, and never more than that
  capacity; so no more than that many run the body of \<open>handleRequest\<close>, handlers
  included. When as many run it as the capacity, no further goroutine gets past its
  send; where a slot is free, a goroutine at its send takes one slot and runs. A
  goroutine that runs the body can leave it by any of its returns and by a panic; each
  of them brings it to the deferred receive, one goroutine fewer runs, and the receive
  happens and frees exactly one slot, after which a goroutine that waited at its send
  can take it. A goroutine that has received takes no further step, so it frees no
  second slot.
\<close>

theorem C3_admission_gate_bound:
  assumes "run es (startPool (NewServer numCPU :: 'e Server)) = Some p"
  shows "executing p \<le> 100 * numCPU \<and>
         holding p = queued p \<and>
         queued p \<le> 100 * numCPU \<and>
         (executing p = 100 * numCPU \<longrightarrow> step (Acquire h) p = None) \<and>
         (h < length (goroutines p) \<and> goroutines p ! h = AtSend \<and> queued p < 100 * numCPU \<longrightarrow>
            (\<exists>p'. step (Acquire h) p = Some p' \<and> goroutines p' ! h = InHandler \<and>
                  queued p' = queued p + 1 \<and> executing p' = executing p + 1)) \<and>
         (g < length (goroutines p) \<and> goroutines p ! g = InHandler \<longrightarrow>
            (\<exists>p' p''. step (Leave g x) p = Some p' \<and> goroutines p' ! g = AtRelease \<and>
               queued p' = queued p \<and> executing p' = executing p - 1 \<and> 0 < executing p \<and>
               step (Release g) p' = Some p'' \<and> goroutines p'' ! g = Finished \<and>
               queued p'' = queued p - 1 \<and> 0 < queued p \<and> executing p'' = executing p - 1 \<and>
               (h < length (goroutines p) \<and> goroutines p ! h = AtSend \<longrightarrow>
                  step (Acquire h) p'' \<noteq> None))) \<and>
         (g < length (goroutines p) \<and> goroutines p ! g = AtRelease \<longrightarrow>
            (\<exists>p'. step (Release g) p = Some p' \<and> goroutines p' ! g = Finished \<and>
                  queued p' = queued p - 1 \<and> 0 < queued p)) \<and>
         (g < length (goroutines p) \<and> goroutines p ! g = Finished \<longrightarrow>
            step (Acquire g) p = None \<and> step (Leave g x) p = None \<and> step (Release g) p = None)"
proof -
  from run_inv [OF assms startPool_inv]
  have inv: "gateInv p" and cap: "capacity p = 100 * numCPU"
    by (simp_all add: startPool_def NewServer_def)
  from inv cap have a: "holding p = queued p" and b: "queued p \<le> 100 * numCPU"
    by (simp_all add: gateInv_def)
  from a b executing_le_holding [of p] have c: "executing p \<le> 100 * numCPU" by simp
  have d: "step (Acquire h) p = None" if "executing p = 100 * numCPU"
    using that a b cap executing_le_holding [of p] by simp
  have e: "\<exists>p'. step (Acquire h) p = Some p' \<and> goroutines p' ! h = InHandler \<and>
                queued p' = queued p + 1 \<and> executing p' = executing p + 1"
    if "h < length (goroutines p) \<and> goroutines p ! h = AtSend \<and> queued p < 100 * numCPU"
    using that cap by (intro acquire_effect) simp_all
  have f: "\<exists>p' p''. step (Leave g x) p = Some p' \<and> goroutines p' ! g = AtRelease \<and>
               queued p' = queued p \<and> executing p' = executing p - 1 \<and> 0 < executing p \<and>
               step (Release g) p' = Some p'' \<and> goroutines p'' ! g = Finished \<and>
               queued p'' = queued p - 1 \<and> 0 < queued p \<and> executing p'' = executing p - 1 \<and>
               (h < length (goroutines p) \<and> goroutines p ! h = AtSend \<longrightarrow>
                  step (Acquire h) p'' \<noteq> None)"
    if "g < length (goroutines p) \<and> goroutines p ! g = InHandler"
    using that a b cap by (intro exit_effect) simp_all
  have g: "\<exists>p'. step (Release g) p = Some p' \<and> goroutines p' ! g = Finished \<and>
                queued p' = queued p - 1 \<and> 0 < queued p"
    if "g < length (goroutines p) \<and> goroutines p ! g = AtRelease"
    using that holder_has_slot [of g p] a by simp
  have h: "step (Acquire g) p = None \<and> step (Leave g x) p = None \<and> step (Release g) p = None"
    if "g < length (goroutines p) \<and> goroutines p ! g = Finished"
    using that by simp
  from a b c d e f g h show ?thesis by blast
qed

theorem C3_witness:
  "run (replicate 101 Arrive @ map Acquire [0 ..< 100]) (startPool (NewServer 1 :: unit Server)) =
     Some \<lparr>capacity = 100, queued = 100, goroutines = replicate 100 InHandler @ [AtSend]\<rparr> \<and>
   executing \<lparr>capacity = 100, queued = 100, goroutines = replicate 100 InHandler @ [AtSend]\<rparr> =
     100 \<and>
   step (Acquire 100)
     \<lparr>capacity = 100, queued = 100, goroutines = replicate 100 InHandler @ [AtSend]\<rparr> = None \<and>
   (\<exists>p' p''.
      step (Leave 0 Panic)
        \<lparr>capacity = 100, queued = 100, goroutines = replicate 100 InHandler @ [AtSend]\<rparr> =
        Some p' \<and>
      step (Release 0) p' = Some p'' \<and> goroutines p'' ! 0 = Finished \<and>
      queued p'' = 99 \<and> executing p'' = 99 \<and> step (Acquire 100) p'' \<noteq> None)"
proof -
  let ?P = "\<lparr>capacity = 100, queued = 100, goroutines = replicate 100 InHandler @ [AtSend]\<rparr>"
  have mw: "maxWorkers (NewServer 1 :: unit Server) = 100" by (simp add: NewServer_def)
  have r: "run (replicate 101 Arrive @ map Acquire [0 ..< 100])
             (startPool (NewServer 1 :: unit Server)) = Some ?P"
  proof -
    have "(101::nat) = Suc 100" by simp
    then show ?thesis using run_full_gate [of "NewServer 1 :: unit Server"]
      by (simp only: mw)
  qed
  have ex: "executing ?P = 100 * 1" by (simp add: executing_def)
  have g0: "0 < length (goroutines ?P) \<and> goroutines ?P ! 0 = InHandler"
    by (simp add: nth_append)
  have h100: "100 < length (goroutines ?P) \<and> goroutines ?P ! 100 = AtSend"
    by (simp add: nth_append)
  from C3_admission_gate_bound [OF r, of 100 0 Panic] ex g0 h100
  have "step (Acquire 100) ?P = None"
    and "\<exists>p' p''. step (Leave 0 Panic) ?P = Some p' \<and> step (Release 0) p' = Some p'' \<and>
           goroutines p'' ! 0 = Finished \<and> queued p'' = queued ?P - 1 \<and>
           executing p'' = executing ?P - 1 \<and> step (Acquire 100) p'' \<noteq> None"
    by blast+
  with r ex show ?thesis by simp
qed

end
